theory Spec2Isabelle
  imports Main
begin

section \<open>The regular expressions of package regexp\<close>

text \<open>
  \<^verbatim>\<open>handler.go\<close> builds on Go's standard package \<^verbatim>\<open>regexp\<close>: \<^verbatim>\<open>Add\<close> calls
  \<^verbatim>\<open>regexp.MustCompile\<close> and \<^verbatim>\<open>ServeHTTP\<close> calls \<^verbatim>\<open>FindStringSubmatch\<close>. The
  package is modelled here for a fragment of its syntax: literals, \<^verbatim>\<open>.\<close>, \<^verbatim>\<open>^\<close>,
  \<^verbatim>\<open>$\<close>, capturing groups, the non-capturing group \<^verbatim>\<open>(?:\<close>, alternation and
  the repetitions \<^verbatim>\<open>*\<close>, \<^verbatim>\<open>+\<close>, \<^verbatim>\<open>?\<close> with their non-greedy forms. A pattern
  that uses anything else (an escape, a character class, a counted repetition, a
  flag or named group, a \<^verbatim>\<open>*\<close> or \<^verbatim>\<open>+\<close> over an expression that can match the
  empty string) is answered \<open>NotModelled\<close>: the model says nothing about it.

  A string stands for its sequence of code points, so that one \<^typ>\<open>char\<close> is one
  rune of the Go string. The size limits of the package (nesting depth, program
  size) are not modelled.
\<close>

datatype regex =
    NoMatch
  | EmptyMatch
  | Literal char
  | AnyCharNotNL
  | BeginText
  | EndText
  | Capture nat regex
  | Star bool regex
  | Plus bool regex
  | Quest bool regex
  | Concat regex regex
  | Alternate regex regex

text \<open>
  The constructors are the operators of \<^verbatim>\<open>regexp/syntax\<close> (\<^verbatim>\<open>OpNoMatch\<close>,
  \<^verbatim>\<open>OpEmptyMatch\<close>, \<^verbatim>\<open>OpLiteral\<close>, ...). The flag of a repetition is \<open>True\<close>
  for the greedy form. \<^verbatim>\<open>OpConcat\<close> and \<^verbatim>\<open>OpAlternate\<close> have any number of
  operands in Go; here they are nested to the right, which tries the operands in
  the same order.
\<close>

datatype ErrorCode =
    ErrMissingParen
  | ErrUnexpectedParen
  | ErrMissingRepeatArgument
  | ErrInvalidRepeatOp

datatype parse_error = Syntax ErrorCode | NotModelled

subsection \<open>The parser of regexp/syntax\<close>

text \<open>
  The parser keeps a stack of finished operands and of two markers, the open
  parenthesis (with the number of its group, 0 for \<^verbatim>\<open>(?:\<close>) and the vertical
  bar. The head of the list is the top of the stack.
\<close>

datatype item = Node regex | LeftParen nat | VerticalBar

record parser =
  stack :: "item list"
  numCap :: nat

fun is_node :: "item \<Rightarrow> bool" where
  "is_node (Node re) = True"
| "is_node (LeftParen cap) = False"
| "is_node VerticalBar = False"

fun nodes :: "item list \<Rightarrow> regex list" where
  "nodes [] = []"
| "nodes (Node re # xs) = re # nodes xs"
| "nodes (LeftParen cap # xs) = nodes xs"
| "nodes (VerticalBar # xs) = nodes xs"

fun nullable :: "regex \<Rightarrow> bool" where
  "nullable NoMatch = False"
| "nullable EmptyMatch = True"
| "nullable (Literal c) = False"
| "nullable AnyCharNotNL = False"
| "nullable BeginText = True"
| "nullable EndText = True"
| "nullable (Capture n re) = nullable re"
| "nullable (Star greedy re) = True"
| "nullable (Plus greedy re) = nullable re"
| "nullable (Quest greedy re) = True"
| "nullable (Concat re1 re2) = (nullable re1 \<and> nullable re2)"
| "nullable (Alternate re1 re2) = (nullable re1 \<or> nullable re2)"

definition push :: "regex \<Rightarrow> parser \<Rightarrow> parser" where
  "push re p = p\<lparr>stack := Node re # stack p\<rparr>"

definition op :: "item \<Rightarrow> parser \<Rightarrow> parser" where
  "op marker p = p\<lparr>stack := marker # stack p\<rparr>"

fun collapse :: "(regex \<Rightarrow> regex \<Rightarrow> regex) \<Rightarrow> regex \<Rightarrow> regex list \<Rightarrow> regex" where
  "collapse opr e [] = e"
| "collapse opr e [x] = x"
| "collapse opr e (x # y # xs) = opr x (collapse opr e (y # xs))"

text \<open>
  \<^verbatim>\<open>concat\<close> replaces the operands above the topmost marker by their
  concatenation (the empty match when there are none), \<^verbatim>\<open>alternate\<close> by their
  alternation.
\<close>

definition concat' :: "parser \<Rightarrow> parser" where
  "concat' p =
     (let subs = takeWhile is_node (stack p); below = dropWhile is_node (stack p)
      in p\<lparr>stack := Node (collapse Concat EmptyMatch (rev (nodes subs))) # below\<rparr>)"

definition alternate :: "parser \<Rightarrow> parser" where
  "alternate p =
     (let subs = takeWhile is_node (stack p); below = dropWhile is_node (stack p)
      in p\<lparr>stack := Node (collapse Alternate NoMatch (rev (nodes subs))) # below\<rparr>)"

fun swapVerticalBar :: "parser \<Rightarrow> bool \<times> parser" where
  "swapVerticalBar p =
     (case stack p of
        re1 # VerticalBar # below \<Rightarrow> (True, p\<lparr>stack := VerticalBar # re1 # below\<rparr>)
      | _ \<Rightarrow> (False, p))"

definition parseVerticalBar :: "parser \<Rightarrow> parser" where
  "parseVerticalBar p =
     (let (swapped, p') = swapVerticalBar (concat' p)
      in if swapped then p' else op VerticalBar p')"

text \<open>
  At a closing parenthesis and at the end of the pattern the parser runs
  \<^verbatim>\<open>concat\<close>, removes the vertical bar if there is one, and runs
  \<^verbatim>\<open>alternate\<close>.
\<close>

definition close_alternation :: "parser \<Rightarrow> parser" where
  "close_alternation p =
     (let (swapped, p') = swapVerticalBar (concat' p)
      in alternate (if swapped then p'\<lparr>stack := tl (stack p')\<rparr> else p'))"

definition parseRightParen :: "parser \<Rightarrow> parse_error + parser" where
  "parseRightParen p =
     (let p' = close_alternation p
      in case stack p' of
           Node re1 # LeftParen cap # below \<Rightarrow>
             Inr (p'\<lparr>stack := Node (if cap = 0 then re1 else Capture cap re1) # below\<rparr>)
         | _ \<Rightarrow> Inl (Syntax ErrUnexpectedParen))"

definition repeat :: "char \<Rightarrow> bool \<Rightarrow> parser \<Rightarrow> parse_error + parser" where
  "repeat c greedy p =
     (case stack p of
        Node sub # below \<Rightarrow>
          if c = CHR ''?'' then Inr (p\<lparr>stack := Node (Quest greedy sub) # below\<rparr>)
          else if nullable sub then Inl NotModelled
          else if c = CHR ''*'' then Inr (p\<lparr>stack := Node (Star greedy sub) # below\<rparr>)
          else Inr (p\<lparr>stack := Node (Plus greedy sub) # below\<rparr>)
      | _ \<Rightarrow> Inl (Syntax ErrMissingRepeatArgument))"

definition finish :: "parser \<Rightarrow> parse_error + regex" where
  "finish p =
     (case stack (close_alternation p) of
        [Node re] \<Rightarrow> Inr re
      | _ \<Rightarrow> Inl (Syntax ErrMissingParen))"

text \<open>
  The loop of \<^verbatim>\<open>syntax.Parse\<close> over the pattern. \<open>lastRepeat\<close> says that the
  character before was a repetition operator: Go rejects two in a row.
\<close>

fun parse_loop :: "parser \<Rightarrow> bool \<Rightarrow> string \<Rightarrow> parse_error + regex" where
  "parse_loop p lastRepeat [] = finish p"
| "parse_loop p lastRepeat (c # t) =
     (if c = CHR ''('' then
        (if take 1 t = ''?'' then
           (if take 2 t = ''?:'' then parse_loop (op (LeftParen 0) p) False (drop 2 t)
            else Inl NotModelled)
         else parse_loop (op (LeftParen (numCap p + 1)) (p\<lparr>numCap := numCap p + 1\<rparr>)) False t)
      else if c = CHR ''|'' then parse_loop (parseVerticalBar p) False t
      else if c = CHR '')'' then
        (case parseRightParen p of
           Inl e \<Rightarrow> Inl e
         | Inr p' \<Rightarrow> parse_loop p' False t)
      else if c = CHR ''^'' then parse_loop (push BeginText p) False t
      else if c = CHR ''$'' then parse_loop (push EndText p) False t
      else if c = CHR ''.'' then parse_loop (push AnyCharNotNL p) False t
      else if c = CHR ''*'' \<or> c = CHR ''+'' \<or> c = CHR ''?'' then
        (if lastRepeat then Inl (Syntax ErrInvalidRepeatOp)
         else case repeat c (take 1 t \<noteq> ''?'') p of
           Inl e \<Rightarrow> Inl e
         | Inr p' \<Rightarrow> parse_loop p' True (if take 1 t = ''?'' then drop 1 t else t))
      else if c = CHR ''['' \<or> c = CHR '']'' \<or> c = CHR ''{'' \<or> c = CHR ''}'' \<or> c = CHR 0x5C
        then Inl NotModelled
      else parse_loop (push (Literal c) p) False t)"

definition Parse :: "string \<Rightarrow> parse_error + regex" where
  "Parse s = parse_loop \<lparr>stack = [], numCap = 0\<rparr> False s"

fun MaxCap :: "regex \<Rightarrow> nat" where
  "MaxCap (Capture n re) = max n (MaxCap re)"
| "MaxCap (Star greedy re) = MaxCap re"
| "MaxCap (Plus greedy re) = MaxCap re"
| "MaxCap (Quest greedy re) = MaxCap re"
| "MaxCap (Concat re1 re2) = max (MaxCap re1) (MaxCap re2)"
| "MaxCap (Alternate re1 re2) = max (MaxCap re1) (MaxCap re2)"
| "MaxCap re = 0"

subsection \<open>Compiled expressions and matching\<close>

record Regexp =
  expr :: string
  syn :: regex
  numSubexp :: nat

definition Compile :: "string \<Rightarrow> parse_error + Regexp" where
  "Compile str =
     (case Parse str of
        Inl err \<Rightarrow> Inl err
      | Inr re \<Rightarrow> Inr \<lparr>expr = str, syn = re, numSubexp = MaxCap re\<rparr>)"

text \<open>
  A thread of the matcher: the position in the input, the input from there on,
  and the capture registers (register \<open>2 * n\<close> is the start of group \<open>n\<close>,
  \<open>2 * n + 1\<close> its end, \<open>-1\<close> is unset, as in Go).

  \<open>m re th\<close> lists the threads that leave \<open>re\<close> when \<open>th\<close> enters it, in the
  order in which a backtracking search tries them; package regexp documents the
  match it returns as the one such a search finds first. A greedy repetition
  tries one more round before it tries to stop, a non-greedy one the other way
  round; an alternation tries its operands from left to right. A round of
  \<^verbatim>\<open>*\<close> or \<^verbatim>\<open>+\<close> consumes at least one character (the parser admits no other),
  so a repetition entered with \<open>n\<close> characters left makes at most \<open>n\<close> rounds,
  which is the bound given to \<open>rounds\<close>.
\<close>

type_synonym thread = "nat \<times> string \<times> int list"

fun rounds :: "(thread \<Rightarrow> thread list) \<Rightarrow> bool \<Rightarrow> nat \<Rightarrow> thread \<Rightarrow> thread list" where
  "rounds step greedy 0 th = [th]"
| "rounds step greedy (Suc n) th =
     (let again = concat (map (rounds step greedy n) (step th))
      in if greedy then again @ [th] else th # again)"

fun m :: "regex \<Rightarrow> thread \<Rightarrow> thread list" where
  "m NoMatch th = []"
| "m EmptyMatch th = [th]"
| "m (Literal c) (p, [], cap) = []"
| "m (Literal c) (p, x # t, cap) = (if x = c then [(Suc p, t, cap)] else [])"
| "m AnyCharNotNL (p, [], cap) = []"
| "m AnyCharNotNL (p, x # t, cap) = (if x \<noteq> CHR 0x0A then [(Suc p, t, cap)] else [])"
| "m BeginText (p, t, cap) = (if p = 0 then [(p, t, cap)] else [])"
| "m EndText (p, t, cap) = (if t = [] then [(p, t, cap)] else [])"
| "m (Capture n re) (p, t, cap) =
     map (\<lambda>(q, u, cap'). (q, u, cap'[2 * n := int p, 2 * n + 1 := int q])) (m re (p, t, cap))"
| "m (Concat re1 re2) th = concat (map (m re2) (m re1 th))"
| "m (Alternate re1 re2) th = m re1 th @ m re2 th"
| "m (Quest greedy re) th = (if greedy then m re th @ [th] else th # m re th)"
| "m (Star greedy re) (p, t, cap) = rounds (m re) greedy (length t) (p, t, cap)"
| "m (Plus greedy re) (p, t, cap) =
     concat (map (rounds (m re) greedy (length t)) (m re (p, t, cap)))"

text \<open>
  The search for the leftmost match: the start positions from left to right, at
  each the first thread that leaves the expression. Registers 0 and 1 are the
  bounds of the whole match.
\<close>

fun search :: "regex \<Rightarrow> nat \<Rightarrow> nat \<Rightarrow> string \<Rightarrow> int list option" where
  "search re ncap pos [] =
     (case m re (pos, [], replicate ncap (- 1)) of
        [] \<Rightarrow> None
      | (q, u, cap) # _ \<Rightarrow> Some (cap[0 := int pos, 1 := int q]))"
| "search re ncap pos (x # t) =
     (case m re (pos, x # t, replicate ncap (- 1)) of
        [] \<Rightarrow> search re ncap (Suc pos) t
      | (q, u, cap) # _ \<Rightarrow> Some (cap[0 := int pos, 1 := int q]))"

definition NumCap :: "Regexp \<Rightarrow> nat" where
  "NumCap re = 2 * (MaxCap (syn re) + 1)"

definition doExecute :: "Regexp \<Rightarrow> string \<Rightarrow> int list option" where
  "doExecute re s = search (syn re) (NumCap re) 0 s"

definition substr :: "string \<Rightarrow> int \<Rightarrow> int \<Rightarrow> string" where
  "substr s lo hi = take (nat hi - nat lo) (drop (nat lo) s)"

text \<open>
  \<^verbatim>\<open>FindStringSubmatch\<close> returns nil (\<open>None\<close>) when there is no match, and
  otherwise a slice of \<open>1 + numSubexp\<close> strings in which a group whose registers
  are unset keeps the zero value, the empty string.
\<close>

definition FindStringSubmatch :: "Regexp \<Rightarrow> string \<Rightarrow> string list option" where
  "FindStringSubmatch re s =
     (case doExecute re s of
        None \<Rightarrow> None
      | Some a \<Rightarrow>
          Some (map (\<lambda>i. if 2 * i < length a \<and> 0 \<le> a ! (2 * i)
                          then substr s (a ! (2 * i)) (a ! (2 * i + 1)) else [])
                    [0..<1 + numSubexp re]))"

section \<open>The handler\<close>

datatype fault = CompilePanic ErrorCode | BoundsPanic | OutsideModel

text \<open>
  \<^verbatim>\<open>MustCompile\<close> panics when \<^verbatim>\<open>Compile\<close> returns an error. \<open>OutsideModel\<close> is
  not a behaviour of the program: it marks a pattern outside the modelled syntax.
\<close>

definition MustCompile :: "string \<Rightarrow> fault + Regexp" where
  "MustCompile str =
     (case Compile str of
        Inl (Syntax code) \<Rightarrow> Inl (CompilePanic code)
      | Inl NotModelled \<Rightarrow> Inl OutsideModel
      | Inr re \<Rightarrow> Inr re)"

record url =
  Path :: string

record request =
  URL :: url

text \<open>
  Of a request only \<^verbatim>\<open>r.URL.Path\<close> is read. A handler function acts on the
  response writer, whose state is \<^typ>\<open>'w\<close>; a function that reaches the
  handler object itself (one that calls \<^verbatim>\<open>Add\<close> while it serves) is not
  covered. Its third argument is a Go slice, which may be nil (\<open>None\<close>). The
  fields \<^verbatim>\<open>re\<close> and \<^verbatim>\<open>f\<close> of a route are \<open>route_re\<close> and \<open>route_f\<close> here.
\<close>

type_synonym 'w handler_func = "'w \<Rightarrow> request \<Rightarrow> string list option \<Rightarrow> 'w"

record 'w route =
  route_re :: Regexp
  route_f :: "'w handler_func"

record 'w RegexpHandler =
  routes :: "'w route list"

definition NewRegexpHandler :: "'w RegexpHandler" where
  "NewRegexpHandler = \<lparr>routes = []\<rparr>"

definition Add :: "'w RegexpHandler \<Rightarrow> string \<Rightarrow> 'w handler_func \<Rightarrow> fault + 'w RegexpHandler" where
  "Add h expression function =
     (case MustCompile (''^'' @ expression @ ''$'') of
        Inl panic \<Rightarrow> Inl panic
      | Inr re \<Rightarrow> Inr (h\<lparr>routes := routes h @ [\<lparr>route_re = re, route_f = function\<rparr>]\<rparr>))"

text \<open>The slice expression \<^verbatim>\<open>xs[lo:]\<close> panics when \<open>lo\<close> is beyond the length.\<close>

definition slice_from :: "'a list \<Rightarrow> nat \<Rightarrow> fault + 'a list" where
  "slice_from xs lo = (if lo \<le> length xs then Inr (drop lo xs) else Inl BoundsPanic)"

text \<open>The loop of \<^verbatim>\<open>ServeHTTP\<close> over the routes; it ends at the first match.\<close>

fun serve :: "'w route list \<Rightarrow> 'w \<Rightarrow> request \<Rightarrow> fault + 'w" where
  "serve [] w r = Inr w"
| "serve (rt # rts) w r =
     (case FindStringSubmatch (route_re rt) (Path (URL r)) of
        None \<Rightarrow> serve rts w r
      | Some matches \<Rightarrow>
          (case slice_from matches 1 of
             Inl panic \<Rightarrow> Inl panic
           | Inr submatches \<Rightarrow> Inr (route_f rt w r (Some submatches))))"

text \<open>
  \<^verbatim>\<open>ServeHTTP\<close> returns the handler object and the response writer as they are
  after the call.
\<close>

definition ServeHTTP :: "'w RegexpHandler \<Rightarrow> 'w \<Rightarrow> request \<Rightarrow> fault + 'w RegexpHandler \<times> 'w" where
  "ServeHTTP h w r =
     (case serve (routes h) w r of
        Inl panic \<Rightarrow> Inl panic
      | Inr w' \<Rightarrow> Inr (h, w'))"

section \<open>Vocabulary of the properties\<close>

text \<open>A sequence of \<^verbatim>\<open>Add\<close> calls; the first panic ends it.\<close>

fun add_all :: "'w RegexpHandler \<Rightarrow> (string \<times> 'w handler_func) list \<Rightarrow> fault + 'w RegexpHandler" where
  "add_all h [] = Inr h"
| "add_all h ((expression, function) # regs) =
     (case Add h expression function of
        Inl panic \<Rightarrow> Inl panic
      | Inr h' \<Rightarrow> add_all h' regs)"

text \<open>
  The test that \<^verbatim>\<open>ServeHTTP\<close> makes on a path for the route that \<^verbatim>\<open>Add\<close>
  registers for an expression.
\<close>

definition pattern_matches :: "string \<Rightarrow> string \<Rightarrow> bool" where
  "pattern_matches expression path =
     (case MustCompile (''^'' @ expression @ ''$'') of
        Inl panic \<Rightarrow> False
      | Inr re \<Rightarrow> FindStringSubmatch re path \<noteq> None)"

text \<open>
  To observe which handler functions a request invokes, every function of a
  table is wrapped so that it also appends the index of its route and the slice
  it received to a log kept beside the response writer.
\<close>

type_synonym call = "nat \<times> string list option"

definition logging :: "nat \<Rightarrow> 'w handler_func \<Rightarrow> ('w \<times> call list) handler_func" where
  "logging i function = (\<lambda>(w, log) r submatches. (function w r submatches, log @ [(i, submatches)]))"

definition traced :: "'w RegexpHandler \<Rightarrow> ('w \<times> call list) RegexpHandler" where
  "traced h =
     \<lparr>routes = map (\<lambda>i. \<lparr>route_re = route_re (routes h ! i),
                           route_f = logging i (route_f (routes h ! i))\<rparr>)
                   [0..<length (routes h)]\<rparr>"

text \<open>
  The capturing groups of a pattern text are its open parentheses that are not
  followed by a question mark; \<open>capture_order\<close> reads the group numbers of a
  parsed expression from left to right.
\<close>

fun count_groups :: "string \<Rightarrow> nat" where
  "count_groups [] = 0"
| "count_groups (c # t) = (if c = CHR ''('' \<and> take 1 t \<noteq> ''?'' then 1 else 0) + count_groups t"

fun capture_order :: "regex \<Rightarrow> nat list" where
  "capture_order (Capture n re) = n # capture_order re"
| "capture_order (Star greedy re) = capture_order re"
| "capture_order (Plus greedy re) = capture_order re"
| "capture_order (Quest greedy re) = capture_order re"
| "capture_order (Concat re1 re2) = capture_order re1 @ capture_order re2"
| "capture_order (Alternate re1 re2) = capture_order re1 @ capture_order re2"
| "capture_order re = []"

fun item_caps :: "item \<Rightarrow> nat list" where
  "item_caps (Node re) = capture_order re"
| "item_caps (LeftParen cap) = (if cap = 0 then [] else [cap])"
| "item_caps VerticalBar = []"

definition stack_caps :: "item list \<Rightarrow> nat list" where
  "stack_caps st = concat (map item_caps (rev st))"

text \<open>
  The expressions in which every \<^verbatim>\<open>*\<close> and \<^verbatim>\<open>+\<close> stands over an operand
  that cannot match the empty string: the parser builds no others.
\<close>

fun wf_loops :: "regex \<Rightarrow> bool" where
  "wf_loops (Capture n re) = wf_loops re"
| "wf_loops (Star greedy re) = (\<not> nullable re \<and> wf_loops re)"
| "wf_loops (Plus greedy re) = (\<not> nullable re \<and> wf_loops re)"
| "wf_loops (Quest greedy re) = wf_loops re"
| "wf_loops (Concat re1 re2) = (wf_loops re1 \<and> wf_loops re2)"
| "wf_loops (Alternate re1 re2) = (wf_loops re1 \<and> wf_loops re2)"
| "wf_loops re = True"

definition stack_wf :: "item list \<Rightarrow> bool" where
  "stack_wf st = list_all wf_loops (nodes st)"

text \<open>The text of group \<open>n\<close> according to the registers of a match.\<close>

definition group_text :: "string \<Rightarrow> int list \<Rightarrow> nat \<Rightarrow> string" where
  "group_text s a n = (if 0 \<le> a ! (2 * n) then substr s (a ! (2 * n)) (a ! (2 * n + 1)) else [])"

text \<open>
  An expression matches a whole string when, entered at its start, some thread
  leaves the parsed expression at its end.
\<close>

definition full_match :: "string \<Rightarrow> string \<Rightarrow> bool" where
  "full_match expression s =
     (case Parse expression of
        Inl err \<Rightarrow> False
      | Inr re \<Rightarrow> list_ex (\<lambda>(q, u, cap). u = [])
                  (m re (0, s, replicate (2 * (MaxCap re + 1)) (- 1))))"

section \<open>The parser numbers the groups from left to right\<close>

lemma capture_order_collapse_Concat:
  "capture_order (collapse Concat EmptyMatch rs) = concat (map capture_order rs)"
  by (induction Concat EmptyMatch rs rule: collapse.induct) auto

lemma capture_order_collapse_Alternate:
  "capture_order (collapse Alternate NoMatch rs) = concat (map capture_order rs)"
  by (induction Alternate NoMatch rs rule: collapse.induct) auto

lemma item_caps_nodes:
  "\<forall>x \<in> set xs. is_node x \<Longrightarrow> map item_caps xs = map capture_order (nodes xs)"
  by (induction xs rule: nodes.induct) auto

lemma stack_caps_split:
  "stack_caps st =
     stack_caps (dropWhile is_node st) @
     concat (map capture_order (rev (nodes (takeWhile is_node st))))"
proof -
  have "map item_caps (takeWhile is_node st) = map capture_order (nodes (takeWhile is_node st))"
    by (rule item_caps_nodes) (auto dest: set_takeWhileD)
  then have "map item_caps (rev (takeWhile is_node st)) =
      map capture_order (rev (nodes (takeWhile is_node st)))"
    by (metis rev_map)
  moreover have "rev st = rev (dropWhile is_node st) @ rev (takeWhile is_node st)"
    by (metis rev_append takeWhile_dropWhile_id)
  ultimately show ?thesis by (simp add: stack_caps_def)
qed

lemma stack_caps_Cons: "stack_caps (x # st) = stack_caps st @ item_caps x"
  by (simp add: stack_caps_def)

lemma stack_caps_concat' [simp]: "stack_caps (stack (concat' p)) = stack_caps (stack p)"
  using stack_caps_split [of "stack p"]
  by (simp add: concat'_def Let_def stack_caps_Cons capture_order_collapse_Concat)

lemma stack_caps_alternate [simp]: "stack_caps (stack (alternate p)) = stack_caps (stack p)"
  using stack_caps_split [of "stack p"]
  by (simp add: alternate_def Let_def stack_caps_Cons capture_order_collapse_Alternate)

lemma numCap_concat' [simp]: "numCap (concat' p) = numCap p"
  by (simp add: concat'_def Let_def)

lemma numCap_alternate [simp]: "numCap (alternate p) = numCap p"
  by (simp add: alternate_def Let_def)

lemma swapVerticalBar_caps:
  "swapVerticalBar p = (b, p') \<Longrightarrow>
   stack_caps (stack p') = stack_caps (stack p) \<and> numCap p' = numCap p \<and>
   (b \<longrightarrow> stack_caps (tl (stack p')) = stack_caps (stack p))"
  by (auto simp: stack_caps_Cons split: list.splits item.splits)

lemma parseVerticalBar_caps [simp]:
  "stack_caps (stack (parseVerticalBar p)) = stack_caps (stack p)"
  "numCap (parseVerticalBar p) = numCap p"
proof -
  obtain b p' where s: "swapVerticalBar (concat' p) = (b, p')" by (cases "swapVerticalBar (concat' p)")
  from swapVerticalBar_caps [OF s]
  show "stack_caps (stack (parseVerticalBar p)) = stack_caps (stack p)"
    "numCap (parseVerticalBar p) = numCap p"
    using s by (auto simp: parseVerticalBar_def op_def stack_caps_Cons simp del: swapVerticalBar.simps)
qed

lemma close_alternation_caps [simp]:
  "stack_caps (stack (close_alternation p)) = stack_caps (stack p)"
  "numCap (close_alternation p) = numCap p"
proof -
  obtain b p' where s: "swapVerticalBar (concat' p) = (b, p')" by (cases "swapVerticalBar (concat' p)")
  from swapVerticalBar_caps [OF s]
  show "stack_caps (stack (close_alternation p)) = stack_caps (stack p)"
    "numCap (close_alternation p) = numCap p"
    using s by (auto simp: close_alternation_def simp del: swapVerticalBar.simps)
qed

lemma parseRightParen_caps:
  "parseRightParen p = Inr p' \<Longrightarrow>
   stack_caps (stack p') = stack_caps (stack p) \<and> numCap p' = numCap p"
proof -
  assume a: "parseRightParen p = Inr p'"
  then obtain re1 cap below where st: "stack (close_alternation p) = Node re1 # LeftParen cap # below"
    and p': "p' = (close_alternation p)\<lparr>stack := Node (if cap = 0 then re1 else Capture cap re1) # below\<rparr>"
    by (auto simp: parseRightParen_def Let_def split: list.splits item.splits)
  have "stack_caps (stack p) = stack_caps (Node re1 # LeftParen cap # below)"
    using st close_alternation_caps(1) [of p] by simp
  then show ?thesis using p' by (simp add: stack_caps_Cons)
qed

lemma repeat_caps:
  "repeat c greedy p = Inr p' \<Longrightarrow>
   stack_caps (stack p') = stack_caps (stack p) \<and> numCap p' = numCap p"
  by (auto simp: repeat_def stack_caps_Cons split: list.splits item.splits if_splits)

lemma finish_caps:
  "finish p = Inr re \<Longrightarrow> capture_order re = stack_caps (stack p)"
proof -
  assume "finish p = Inr re"
  then have "stack (close_alternation p) = [Node re]"
    by (auto simp: finish_def split: list.splits item.splits)
  then have "stack_caps (stack (close_alternation p)) = capture_order re"
    by (simp add: stack_caps_def)
  then show ?thesis by simp
qed

lemma count_groups_drop_question:
  "take 1 t = ''?'' \<Longrightarrow> count_groups (drop 1 t) = count_groups t"
  by (cases t) auto

lemma count_groups_drop_noncapturing:
  "take 2 t = ''?:'' \<Longrightarrow> count_groups (drop 2 t) = count_groups t"
  by (cases t; cases "tl t") auto

lemma parse_loop_capture_order:
  "parse_loop p lastRepeat t = Inr re \<Longrightarrow>
   stack_caps (stack p) = [1..<Suc (numCap p)] \<Longrightarrow>
   capture_order re = [1..<Suc (numCap p + count_groups t)]"
proof (induction p lastRepeat t rule: parse_loop.induct)
  case (1 p lastRepeat)
  then show ?case by (simp add: finish_caps)
next
  case (2 p lastRepeat c t)
  note res = "2.prems"(1) and inv = "2.prems"(2)
  consider (lparen) "c = CHR ''(''" | (bar) "c = CHR ''|''" | (rparen) "c = CHR '')''"
    | (bol) "c = CHR ''^''" | (eol) "c = CHR ''$''" | (dot) "c = CHR ''.''"
    | (rep) "c = CHR ''*'' \<or> c = CHR ''+'' \<or> c = CHR ''?''"
    | (lit) "c \<noteq> CHR ''(''" "c \<noteq> CHR ''|''" "c \<noteq> CHR '')''" "c \<noteq> CHR ''^''"
        "c \<noteq> CHR ''$''" "c \<noteq> CHR ''.''" "\<not> (c = CHR ''*'' \<or> c = CHR ''+'' \<or> c = CHR ''?'')"
    by blast
  then show ?case
  proof cases
    case lparen
    show ?thesis
    proof (cases "take 1 t = ''?''")
      case True
      with res lparen have nc: "take 2 t = ''?:''"
        and r: "parse_loop (op (LeftParen 0) p) False (drop 2 t) = Inr re"
        by (auto split: if_splits)
      have "capture_order re = [1..<Suc (numCap (op (LeftParen 0) p) + count_groups (drop 2 t))]"
        using "2.IH"(1) [OF lparen True nc r] inv by (simp add: op_def stack_caps_Cons)
      then show ?thesis using lparen True nc
        by (simp add: op_def count_groups_drop_noncapturing)
    next
      case False
      with res lparen have
        r: "parse_loop (op (LeftParen (numCap p + 1)) (p\<lparr>numCap := numCap p + 1\<rparr>)) False t = Inr re"
        by simp
      have "capture_order re =
          [1..<Suc (numCap (op (LeftParen (numCap p + 1)) (p\<lparr>numCap := numCap p + 1\<rparr>)) + count_groups t)]"
        using "2.IH"(2) [OF lparen False r] inv by (simp add: op_def stack_caps_Cons)
      then show ?thesis using lparen False by (simp add: op_def)
    qed
  next
    case bar
    with res have r: "parse_loop (parseVerticalBar p) False t = Inr re" by simp
    show ?thesis using "2.IH"(3) [OF _ bar r] inv bar by simp
  next
    case rparen
    with res obtain p' where p': "parseRightParen p = Inr p'" and r: "parse_loop p' False t = Inr re"
      by (auto split: sum.splits)
    show ?thesis using "2.IH"(4) [OF _ _ rparen p' r] parseRightParen_caps [OF p'] inv rparen by simp
  next
    case bol
    with res have r: "parse_loop (push BeginText p) False t = Inr re" by simp
    show ?thesis using "2.IH"(5) [OF _ _ _ bol r] inv bol by (simp add: push_def stack_caps_Cons)
  next
    case eol
    with res have r: "parse_loop (push EndText p) False t = Inr re" by simp
    show ?thesis using "2.IH"(6) [OF _ _ _ _ eol r] inv eol by (simp add: push_def stack_caps_Cons)
  next
    case dot
    with res have r: "parse_loop (push AnyCharNotNL p) False t = Inr re" by simp
    show ?thesis using "2.IH"(7) [OF _ _ _ _ _ dot r] inv dot by (simp add: push_def stack_caps_Cons)
  next
    case rep
    then have ne: "c \<noteq> CHR ''(''" "c \<noteq> CHR ''|''" "c \<noteq> CHR '')''" "c \<noteq> CHR ''^''"
        "c \<noteq> CHR ''$''" "c \<noteq> CHR ''.''" by auto
    with res rep obtain p' where nl: "\<not> lastRepeat"
      and p': "repeat c (take 1 t \<noteq> ''?'') p = Inr p'"
      and r: "parse_loop p' True (if take 1 t = ''?'' then drop 1 t else t) = Inr re"
      by (auto split: sum.splits if_splits)
    have co: "capture_order re =
        [1..<Suc (numCap p' + count_groups (if take 1 t = ''?'' then drop 1 t else t))]"
      using "2.IH"(8) [OF ne rep nl p' r] repeat_caps [OF p'] inv by simp
    have "count_groups (if take 1 t = ''?'' then drop 1 t else t) = count_groups t"
      using count_groups_drop_question [of t] by (cases "take 1 t = ''?''") simp_all
    moreover have "count_groups (c # t) = count_groups t" using ne by simp
    ultimately show ?thesis using co repeat_caps [OF p'] by simp
  next
    case lit
    with res have nb: "\<not> (c = CHR ''['' \<or> c = CHR '']'' \<or> c = CHR ''{'' \<or> c = CHR ''}'' \<or> c = CHR 0x5C)"
      and r: "parse_loop (push (Literal c) p) False t = Inr re"
      by (auto split: if_splits)
    show ?thesis using "2.IH"(9) [OF lit nb r] inv lit by (simp add: push_def stack_caps_Cons)
  qed
qed

lemma Parse_capture_order:
  "Parse s = Inr re \<Longrightarrow> capture_order re = [1..<Suc (count_groups s)]"
  using parse_loop_capture_order [of "\<lparr>stack = [], numCap = 0\<rparr>" False s re]
  by (simp add: Parse_def stack_caps_def)

lemma capture_order_le_MaxCap: "n \<in> set (capture_order re) \<Longrightarrow> n \<le> MaxCap re"
  by (induction re) auto

lemma MaxCap_in_capture_order: "MaxCap re = 0 \<or> MaxCap re \<in> set (capture_order re)"
  by (induction re) (auto simp: max_def)

lemma MaxCap_upt: "capture_order re = [1..<Suc k] \<Longrightarrow> MaxCap re = k"
proof -
  assume a: "capture_order re = [1..<Suc k]"
  show ?thesis
  proof (cases k)
    case 0
    with a MaxCap_in_capture_order [of re] show ?thesis by simp
  next
    case (Suc j)
    with a have "k \<in> set (capture_order re)" by simp
    then have "k \<le> MaxCap re" by (rule capture_order_le_MaxCap)
    moreover have "MaxCap re \<le> k" using MaxCap_in_capture_order [of re] a by auto
    ultimately show ?thesis by simp
  qed
qed

lemma Parse_MaxCap: "Parse s = Inr re \<Longrightarrow> MaxCap re = count_groups s"
  by (simp add: MaxCap_upt Parse_capture_order)

lemma count_groups_dollar: "count_groups (t @ ''$'') = count_groups t"
proof (induction t)
  case Nil
  show ?case by simp
next
  case (Cons c t)
  then show ?case by (cases t) auto
qed

lemma count_groups_anchored [simp]: "count_groups (''^'' @ e @ ''$'') = count_groups e"
  using count_groups_dollar [of e] by simp

section \<open>The loop of ServeHTTP\<close>

lemma length_FindStringSubmatch:
  "FindStringSubmatch re s = Some ms \<Longrightarrow> length ms = 1 + numSubexp re"
  by (auto simp: FindStringSubmatch_def split: option.splits)

lemma serve_skip:
  "\<forall>rt \<in> set pre. FindStringSubmatch (route_re rt) (Path (URL r)) = None \<Longrightarrow>
   serve (pre @ rts) w r = serve rts w r"
  by (induction pre) auto

lemma serve_none:
  "\<forall>rt \<in> set rts. FindStringSubmatch (route_re rt) (Path (URL r)) = None \<Longrightarrow>
   serve rts w r = Inr w"
  by (induction rts) auto

lemma serve_hit:
  "FindStringSubmatch (route_re rt) (Path (URL r)) = Some ms \<Longrightarrow>
   serve (rt # rts) w r = Inr (route_f rt w r (Some (drop 1 ms)))"
  by (auto simp: slice_from_def dest: length_FindStringSubmatch)

lemma serve_first:
  assumes i: "i < length rts"
    and hit: "FindStringSubmatch (route_re (rts ! i)) (Path (URL r)) = Some ms"
    and before: "\<forall>j<i. FindStringSubmatch (route_re (rts ! j)) (Path (URL r)) = None"
  shows "serve rts w r = Inr (route_f (rts ! i) w r (Some (drop 1 ms)))"
proof -
  have split: "rts = take i rts @ (rts ! i) # drop (Suc i) rts"
    using i by (simp add: id_take_nth_drop)
  have "\<forall>rt \<in> set (take i rts). FindStringSubmatch (route_re rt) (Path (URL r)) = None"
    using before i by (auto simp: in_set_conv_nth)
  then have "serve rts w r = serve ((rts ! i) # drop (Suc i) rts) w r"
    using serve_skip [of "take i rts" r "(rts ! i) # drop (Suc i) rts" w] split by simp
  then show ?thesis using serve_hit [OF hit] by simp
qed

lemma routes_traced_length [simp]: "length (routes (traced h)) = length (routes h)"
  by (simp add: traced_def)

lemma routes_traced_nth:
  "i < length (routes h) \<Longrightarrow>
   routes (traced h) ! i =
     \<lparr>route_re = route_re (routes h ! i), route_f = logging i (route_f (routes h ! i))\<rparr>"
  by (simp add: traced_def)

lemma Add_Inr:
  "Add h e g = Inr h' \<longleftrightarrow>
   (\<exists>re. MustCompile (''^'' @ e @ ''$'') = Inr re \<and>
         h' = h\<lparr>routes := routes h @ [\<lparr>route_re = re, route_f = g\<rparr>]\<rparr>)"
  by (auto simp: Add_def split: sum.splits)

lemma add_all_routes:
  "add_all h0 regs = Inr h \<Longrightarrow>
   length (routes h) = length (routes h0) + length regs \<and>
   take (length (routes h0)) (routes h) = routes h0 \<and>
   (\<forall>i<length regs.
      MustCompile (''^'' @ fst (regs ! i) @ ''$'') = Inr (route_re (routes h ! (length (routes h0) + i))) \<and>
      route_f (routes h ! (length (routes h0) + i)) = snd (regs ! i))"
proof (induction regs arbitrary: h0)
  case Nil
  then show ?case by simp
next
  case (Cons a regs)
  obtain e g where a: "a = (e, g)" by (cases a)
  from Cons.prems a obtain h1 where h1: "Add h0 e g = Inr h1" and rest: "add_all h1 regs = Inr h"
    by (auto split: sum.splits)
  from h1 obtain re where re: "MustCompile (''^'' @ e @ ''$'') = Inr re"
    and h1': "routes h1 = routes h0 @ [\<lparr>route_re = re, route_f = g\<rparr>]"
    by (auto simp: Add_Inr)
  note IH = Cons.IH [OF rest]
  have len: "length (routes h) = length (routes h0) + length (a # regs)"
    using IH h1' by simp
  have tk: "take (length (routes h0)) (routes h) = routes h0"
  proof -
    have "take (length (routes h0)) (take (length (routes h1)) (routes h)) = take (length (routes h0)) (routes h1)"
      using IH by simp
    then show ?thesis using h1' by (simp add: min_def)
  qed
  have nth0: "routes h ! length (routes h0) = \<lparr>route_re = re, route_f = g\<rparr>"
  proof -
    have "take (length (routes h1)) (routes h) ! length (routes h0) = routes h1 ! length (routes h0)"
      using IH by simp
    then show ?thesis using h1' by simp
  qed
  have "\<forall>i<length (a # regs).
      MustCompile (''^'' @ fst ((a # regs) ! i) @ ''$'') = Inr (route_re (routes h ! (length (routes h0) + i))) \<and>
      route_f (routes h ! (length (routes h0) + i)) = snd ((a # regs) ! i)"
  proof (intro allI impI)
    fix i assume i: "i < length (a # regs)"
    show "MustCompile (''^'' @ fst ((a # regs) ! i) @ ''$'') = Inr (route_re (routes h ! (length (routes h0) + i))) \<and>
      route_f (routes h ! (length (routes h0) + i)) = snd ((a # regs) ! i)"
    proof (cases i)
      case 0
      then show ?thesis using nth0 re a by simp
    next
      case (Suc k)
      then have "k < length regs" using i by simp
      with IH have "MustCompile (''^'' @ fst (regs ! k) @ ''$'') = Inr (route_re (routes h ! (length (routes h1) + k))) \<and>
         route_f (routes h ! (length (routes h1) + k)) = snd (regs ! k)" by blast
      then show ?thesis using Suc h1' by simp
    qed
  qed
  with len tk show ?case by blast
qed

section \<open>The bound on the rounds of a repetition\<close>

text \<open>
  A thread never moves backwards, and an operand that cannot match the empty
  string consumes a character. Hence the bound given to \<open>rounds\<close> never cuts a
  thread of an expression that the parser builds, and \<open>m\<close> satisfies the
  equations of a backtracking matcher for \<^verbatim>\<open>*\<close> and \<^verbatim>\<open>+\<close>.
\<close>

lemma rounds_rest_le:
  assumes step: "\<And>th th'. th' \<in> set (step th) \<Longrightarrow> length (fst (snd th')) \<le> length (fst (snd th))"
  shows "th' \<in> set (rounds step greedy n th) \<Longrightarrow> length (fst (snd th')) \<le> length (fst (snd th))"
proof (induction n arbitrary: th)
  case 0
  then show ?case by simp
next
  case (Suc n)
  from Suc.prems have "th' = th \<or> (\<exists>x \<in> set (step th). th' \<in> set (rounds step greedy n x))"
    by (auto simp: Let_def split: if_splits)
  then show ?case
  proof
    assume "th' = th" then show ?thesis by simp
  next
    assume "\<exists>x \<in> set (step th). th' \<in> set (rounds step greedy n x)"
    then obtain x where x: "x \<in> set (step th)" "th' \<in> set (rounds step greedy n x)" by blast
    from Suc.IH [OF x(2)] step [OF x(1)] show ?thesis by simp
  qed
qed

lemma m_rest_le:
  "th' \<in> set (m re th) \<Longrightarrow> length (fst (snd th')) \<le> length (fst (snd th))"
proof (induction re arbitrary: th th')
  case (Literal c)
  then show ?case by (cases "(Literal c, th)" rule: m.cases) (auto split: if_splits)
next
  case AnyCharNotNL
  then show ?case by (cases "(AnyCharNotNL, th)" rule: m.cases) (auto split: if_splits)
next
  case BeginText
  then show ?case by (cases th) (auto split: if_splits)
next
  case EndText
  then show ?case by (cases th) (auto split: if_splits)
next
  case (Capture n re)
  then show ?case by (cases th) fastforce
next
  case (Star g re)
  then show ?case by (cases th) (auto dest: rounds_rest_le [rotated])
next
  case (Plus g re)
  obtain p t cap where th: "th = (p, t, cap)" by (cases th)
  from Plus.prems th obtain x where x: "x \<in> set (m re th)"
    "th' \<in> set (rounds (m re) g (length t) x)" by auto
  from rounds_rest_le [of "m re", OF Plus.IH x(2)] Plus.IH [OF x(1)] show ?case by simp
next
  case (Concat re1 re2)
  from Concat.prems obtain x where "x \<in> set (m re1 th)" "th' \<in> set (m re2 x)" by auto
  then show ?case using Concat.IH(1) [of x th] Concat.IH(2) [of th' x] by simp
qed (auto split: if_splits)

lemma m_rest_less:
  "\<not> nullable re \<Longrightarrow> th' \<in> set (m re th) \<Longrightarrow> length (fst (snd th')) < length (fst (snd th))"
proof (induction re arbitrary: th th')
  case (Literal c)
  then show ?case by (cases "(Literal c, th)" rule: m.cases) (auto split: if_splits)
next
  case AnyCharNotNL
  then show ?case by (cases "(AnyCharNotNL, th)" rule: m.cases) (auto split: if_splits)
next
  case (Capture n re)
  then show ?case by (cases th) fastforce
next
  case (Plus g re)
  obtain p t cap where th: "th = (p, t, cap)" by (cases th)
  from Plus.prems th obtain x where x: "x \<in> set (m re th)"
    "th' \<in> set (rounds (m re) g (length t) x)" by auto
  have le: "\<And>a b. b \<in> set (m re a) \<Longrightarrow> length (fst (snd b)) \<le> length (fst (snd a))"
    by (rule m_rest_le)
  from Plus.prems(1) have "\<not> nullable re" by simp
  from rounds_rest_le [of "m re", OF le x(2)] Plus.IH [OF this x(1)]
  show ?case by simp
next
  case (Concat re1 re2)
  from Concat.prems obtain x where x: "x \<in> set (m re1 th)" "th' \<in> set (m re2 x)" by auto
  show ?case
  proof (cases "nullable re1")
    case True
    with Concat.prems have "\<not> nullable re2" by simp
    from Concat.IH(2) [OF this x(2)] m_rest_le [OF x(1)] show ?thesis by simp
  next
    case False
    from Concat.IH(1) [OF False x(1)] m_rest_le [OF x(2)] show ?thesis by simp
  qed
next
  case (Alternate re1 re2)
  from Alternate.prems have "th' \<in> set (m re1 th) \<or> th' \<in> set (m re2 th)"
    and "\<not> nullable re1" "\<not> nullable re2" by auto
  then show ?case using Alternate.IH(1) [of th' th] Alternate.IH(2) [of th' th] by blast
qed auto

lemma rounds_more_fuel:
  assumes step: "\<And>th th'. th' \<in> set (step th) \<Longrightarrow> length (fst (snd th')) < length (fst (snd th))"
  shows "length (fst (snd th)) \<le> n \<Longrightarrow> rounds step greedy (Suc n) th = rounds step greedy n th"
proof (induction n arbitrary: th)
  case 0
  then have "step th = []" using step [of _ th] by (cases "step th") auto
  then show ?case by simp
next
  case (Suc n)
  have eq: "map (rounds step greedy (Suc n)) (step th) = map (rounds step greedy n) (step th)"
  proof (rule map_cong [OF refl])
    fix x assume "x \<in> set (step th)"
    from step [OF this] Suc.prems have "length (fst (snd x)) \<le> n" by simp
    then show "rounds step greedy (Suc n) x = rounds step greedy n x" by (rule Suc.IH)
  qed
  have "rounds step greedy (Suc (Suc n)) th =
      (let again = concat (map (rounds step greedy (Suc n)) (step th))
       in if greedy then again @ [th] else th # again)"
    by (simp only: rounds.simps)
  also have "\<dots> = (let again = concat (map (rounds step greedy n) (step th))
       in if greedy then again @ [th] else th # again)"
    by (simp only: eq)
  also have "\<dots> = rounds step greedy (Suc n) th"
    by (simp only: rounds.simps)
  finally show ?case .
qed

lemma rounds_enough_fuel:
  assumes step: "\<And>th th'. th' \<in> set (step th) \<Longrightarrow> length (fst (snd th')) < length (fst (snd th))"
  shows "length (fst (snd th)) \<le> n \<Longrightarrow>
    rounds step greedy n th = rounds step greedy (length (fst (snd th))) th"
proof (induction n)
  case 0
  then show ?case by simp
next
  case (Suc n)
  show ?case
  proof (cases "length (fst (snd th)) \<le> n")
    case True
    from rounds_more_fuel [of step, OF step True] Suc.IH [OF True] show ?thesis by simp
  next
    case False
    with Suc.prems have "length (fst (snd th)) = Suc n" by simp
    then show ?thesis by simp
  qed
qed

text \<open>The equations of a backtracking matcher, without the bound on the rounds.\<close>

lemma m_Star_unfold:
  assumes nn: "\<not> nullable re"
  shows "m (Star greedy re) th =
     (let again = concat (map (m (Star greedy re)) (m re th))
      in if greedy then again @ [th] else th # again)"
proof -
  obtain p t cap where th: "th = (p, t, cap)" by (cases th)
  have less: "\<And>th th'. th' \<in> set (m re th) \<Longrightarrow> length (fst (snd th')) < length (fst (snd th))"
    using m_rest_less [OF nn] by blast
  show ?thesis
  proof (cases t)
    case Nil
    with th have "m re th = []" using less [of _ th] by (cases "m re th") auto
    with th Nil show ?thesis by simp
  next
    case (Cons c u)
    have eq: "map (rounds (m re) greedy (length u)) (m re th) = map (m (Star greedy re)) (m re th)"
    proof (rule map_cong [OF refl])
      fix x assume x: "x \<in> set (m re th)"
      obtain q v cap' where xx: "x = (q, v, cap')" by (cases x)
      from less [OF x] th Cons xx have "length v \<le> length u" by simp
      from rounds_enough_fuel [of "m re" x "length u" greedy, OF less] this xx
      show "rounds (m re) greedy (length u) x = m (Star greedy re) x" by simp
    qed
    have "m (Star greedy re) th = rounds (m re) greedy (Suc (length u)) th"
      using th Cons by simp
    also have "\<dots> = (let again = concat (map (rounds (m re) greedy (length u)) (m re th))
       in if greedy then again @ [th] else th # again)"
      by (simp only: rounds.simps)
    also have "\<dots> = (let again = concat (map (m (Star greedy re)) (m re th))
       in if greedy then again @ [th] else th # again)"
      by (simp only: eq)
    finally show ?thesis .
  qed
qed

lemma m_Plus_unfold:
  assumes nn: "\<not> nullable re"
  shows "m (Plus greedy re) th = concat (map (m (Star greedy re)) (m re th))"
proof -
  obtain p t cap where th: "th = (p, t, cap)" by (cases th)
  have less: "\<And>th th'. th' \<in> set (m re th) \<Longrightarrow> length (fst (snd th')) < length (fst (snd th))"
    using m_rest_less [OF nn] by blast
  have eq: "map (rounds (m re) greedy (length t)) (m re th) = map (m (Star greedy re)) (m re th)"
  proof (rule map_cong [OF refl])
    fix x assume x: "x \<in> set (m re th)"
    obtain q v cap' where xx: "x = (q, v, cap')" by (cases x)
    from less [OF x] th xx have "length v \<le> length t" by simp
    from rounds_enough_fuel [of "m re" x "length t" greedy, OF less] this xx
    show "rounds (m re) greedy (length t) x = m (Star greedy re) x" by simp
  qed
  have "m (Plus greedy re) th = concat (map (rounds (m re) greedy (length t)) (m re th))"
    using th by simp
  also have "\<dots> = concat (map (m (Star greedy re)) (m re th))"
    by (simp only: eq)
  finally show ?thesis .
qed

lemma wf_collapse_Concat:
  "list_all wf_loops rs \<Longrightarrow> wf_loops (collapse Concat EmptyMatch rs)"
  by (induction Concat EmptyMatch rs rule: collapse.induct) auto

lemma wf_collapse_Alternate:
  "list_all wf_loops rs \<Longrightarrow> wf_loops (collapse Alternate NoMatch rs)"
  by (induction Alternate NoMatch rs rule: collapse.induct) auto

lemma nodes_append: "nodes (xs @ ys) = nodes xs @ nodes ys"
  by (induction xs rule: nodes.induct) auto

lemma stack_wf_parts:
  "stack_wf st \<longleftrightarrow> stack_wf (takeWhile is_node st) \<and> stack_wf (dropWhile is_node st)"
proof -
  have "nodes st = nodes (takeWhile is_node st) @ nodes (dropWhile is_node st)"
    by (metis nodes_append takeWhile_dropWhile_id)
  then show ?thesis by (simp add: stack_wf_def)
qed

lemma stack_wf_Cons: "stack_wf (x # st) \<longleftrightarrow> (case x of Node re \<Rightarrow> wf_loops re | _ \<Rightarrow> True) \<and> stack_wf st"
  by (cases x) (simp_all add: stack_wf_def)

lemma stack_wf_concat': "stack_wf (stack p) \<Longrightarrow> stack_wf (stack (concat' p))"
  using stack_wf_parts [of "stack p"]
  by (simp add: concat'_def Let_def stack_wf_Cons wf_collapse_Concat stack_wf_def)

lemma stack_wf_alternate: "stack_wf (stack p) \<Longrightarrow> stack_wf (stack (alternate p))"
  using stack_wf_parts [of "stack p"]
  by (simp add: alternate_def Let_def stack_wf_Cons wf_collapse_Alternate stack_wf_def)

lemma stack_wf_Nil: "stack_wf []"
  by (simp add: stack_wf_def)

lemma stack_wf_tl: "stack_wf st \<Longrightarrow> stack_wf (tl st)"
  by (cases st) (simp_all add: stack_wf_Cons)

lemma stack_wf_swapVerticalBar:
  "swapVerticalBar p = (b, p') \<Longrightarrow> stack_wf (stack p) \<Longrightarrow>
   stack_wf (stack p') \<and> stack_wf (tl (stack p'))"
  by (auto simp: stack_wf_Cons stack_wf_tl split: list.splits item.splits)

lemma stack_wf_parseVerticalBar:
  assumes "stack_wf (stack p)"
  shows "stack_wf (stack (parseVerticalBar p))"
proof -
  obtain b p' where s: "swapVerticalBar (concat' p) = (b, p')" by (cases "swapVerticalBar (concat' p)")
  from stack_wf_swapVerticalBar [OF s stack_wf_concat' [OF assms]] s
  show ?thesis by (auto simp: parseVerticalBar_def op_def stack_wf_Cons simp del: swapVerticalBar.simps)
qed

lemma stack_wf_close_alternation:
  assumes "stack_wf (stack p)"
  shows "stack_wf (stack (close_alternation p))"
proof -
  obtain b p' where s: "swapVerticalBar (concat' p) = (b, p')" by (cases "swapVerticalBar (concat' p)")
  from stack_wf_swapVerticalBar [OF s stack_wf_concat' [OF assms]]
  have "stack_wf (stack (if b then p'\<lparr>stack := tl (stack p')\<rparr> else p'))" by simp
  from stack_wf_alternate [OF this] s
  show ?thesis by (simp add: close_alternation_def del: swapVerticalBar.simps)
qed

lemma stack_wf_parseRightParen:
  "parseRightParen p = Inr p' \<Longrightarrow> stack_wf (stack p) \<Longrightarrow> stack_wf (stack p')"
  using stack_wf_close_alternation [of p]
  by (auto simp: parseRightParen_def Let_def stack_wf_Cons split: list.splits item.splits)

lemma stack_wf_repeat:
  "repeat c greedy p = Inr p' \<Longrightarrow> stack_wf (stack p) \<Longrightarrow> stack_wf (stack p')"
  by (auto simp: repeat_def stack_wf_Cons split: list.splits item.splits if_splits)

lemma wf_finish: "finish p = Inr re \<Longrightarrow> stack_wf (stack p) \<Longrightarrow> wf_loops re"
  using stack_wf_close_alternation [of p]
  by (auto simp: finish_def stack_wf_Cons stack_wf_Nil split: list.splits item.splits)

lemma parse_loop_wf:
  "parse_loop p lastRepeat t = Inr re \<Longrightarrow> stack_wf (stack p) \<Longrightarrow> wf_loops re"
proof (induction p lastRepeat t rule: parse_loop.induct)
  case (1 p lastRepeat)
  then show ?case by (simp add: wf_finish)
next
  case (2 p lastRepeat c t)
  note res = "2.prems"(1) and inv = "2.prems"(2)
  consider (lparen) "c = CHR ''(''" | (bar) "c = CHR ''|''" | (rparen) "c = CHR '')''"
    | (bol) "c = CHR ''^''" | (eol) "c = CHR ''$''" | (dot) "c = CHR ''.''"
    | (rep) "c = CHR ''*'' \<or> c = CHR ''+'' \<or> c = CHR ''?''"
    | (lit) "c \<noteq> CHR ''(''" "c \<noteq> CHR ''|''" "c \<noteq> CHR '')''" "c \<noteq> CHR ''^''"
        "c \<noteq> CHR ''$''" "c \<noteq> CHR ''.''" "\<not> (c = CHR ''*'' \<or> c = CHR ''+'' \<or> c = CHR ''?'')"
    by blast
  then show ?case
  proof cases
    case lparen
    show ?thesis
    proof (cases "take 1 t = ''?''")
      case True
      with res lparen have nc: "take 2 t = ''?:''"
        and r: "parse_loop (op (LeftParen 0) p) False (drop 2 t) = Inr re"
        by (auto split: if_splits)
      show ?thesis using "2.IH"(1) [OF lparen True nc r] inv by (simp add: op_def stack_wf_Cons)
    next
      case False
      with res lparen have
        r: "parse_loop (op (LeftParen (numCap p + 1)) (p\<lparr>numCap := numCap p + 1\<rparr>)) False t = Inr re"
        by simp
      show ?thesis using "2.IH"(2) [OF lparen False r] inv by (simp add: op_def stack_wf_Cons)
    qed
  next
    case bar
    with res have r: "parse_loop (parseVerticalBar p) False t = Inr re" by simp
    show ?thesis using "2.IH"(3) [OF _ bar r] stack_wf_parseVerticalBar [OF inv] bar by simp
  next
    case rparen
    with res obtain p' where p': "parseRightParen p = Inr p'" and r: "parse_loop p' False t = Inr re"
      by (auto split: sum.splits)
    show ?thesis using "2.IH"(4) [OF _ _ rparen p' r] stack_wf_parseRightParen [OF p' inv] rparen by simp
  next
    case bol
    with res have r: "parse_loop (push BeginText p) False t = Inr re" by simp
    show ?thesis using "2.IH"(5) [OF _ _ _ bol r] inv bol by (simp add: push_def stack_wf_Cons)
  next
    case eol
    with res have r: "parse_loop (push EndText p) False t = Inr re" by simp
    show ?thesis using "2.IH"(6) [OF _ _ _ _ eol r] inv eol by (simp add: push_def stack_wf_Cons)
  next
    case dot
    with res have r: "parse_loop (push AnyCharNotNL p) False t = Inr re" by simp
    show ?thesis using "2.IH"(7) [OF _ _ _ _ _ dot r] inv dot by (simp add: push_def stack_wf_Cons)
  next
    case rep
    then have ne: "c \<noteq> CHR ''(''" "c \<noteq> CHR ''|''" "c \<noteq> CHR '')''" "c \<noteq> CHR ''^''"
        "c \<noteq> CHR ''$''" "c \<noteq> CHR ''.''" by auto
    with res rep obtain p' where nl: "\<not> lastRepeat"
      and p': "repeat c (take 1 t \<noteq> ''?'') p = Inr p'"
      and r: "parse_loop p' True (if take 1 t = ''?'' then drop 1 t else t) = Inr re"
      by (auto split: sum.splits if_splits)
    show ?thesis using "2.IH"(8) [OF ne rep nl p' r] stack_wf_repeat [OF p' inv] by simp
  next
    case lit
    with res have nb: "\<not> (c = CHR ''['' \<or> c = CHR '']'' \<or> c = CHR ''{'' \<or> c = CHR ''}'' \<or> c = CHR 0x5C)"
      and r: "parse_loop (push (Literal c) p) False t = Inr re"
      by (auto split: if_splits)
    show ?thesis using "2.IH"(9) [OF lit nb r] inv lit by (simp add: push_def stack_wf_Cons)
  qed
qed

lemma Parse_wf_loops: "Parse s = Inr re \<Longrightarrow> wf_loops re"
  using parse_loop_wf [of "\<lparr>stack = [], numCap = 0\<rparr>" False s re]
  by (simp add: Parse_def stack_wf_def)

section \<open>The registers of a match\<close>

lemma rounds_cap_length:
  assumes step: "\<And>th th'. th' \<in> set (step th) \<Longrightarrow> length (snd (snd th')) = length (snd (snd th))"
  shows "th' \<in> set (rounds step greedy n th) \<Longrightarrow> length (snd (snd th')) = length (snd (snd th))"
proof (induction n arbitrary: th)
  case 0
  then show ?case by simp
next
  case (Suc n)
  then show ?case by (auto simp: Let_def split: if_splits dest: step)
qed

lemma m_cap_length:
  "th' \<in> set (m re th) \<Longrightarrow> length (snd (snd th')) = length (snd (snd th))"
proof (induction re arbitrary: th th')
  case (Literal c)
  then show ?case by (cases "(Literal c, th)" rule: m.cases) (auto split: if_splits)
next
  case AnyCharNotNL
  then show ?case by (cases "(AnyCharNotNL, th)" rule: m.cases) (auto split: if_splits)
next
  case BeginText
  then show ?case by (cases th) (auto split: if_splits)
next
  case EndText
  then show ?case by (cases th) (auto split: if_splits)
next
  case (Capture n re)
  then show ?case by (cases th) fastforce
next
  case (Star g re)
  then show ?case by (cases th) (auto dest: rounds_cap_length [rotated])
next
  case (Plus g re)
  then show ?case by (cases th) (fastforce dest: rounds_cap_length [rotated])
next
  case (Concat re1 re2)
  from Concat.prems obtain x where "x \<in> set (m re1 th)" "th' \<in> set (m re2 x)" by auto
  then show ?case using Concat.IH(1) [of x th] Concat.IH(2) [of th' x] by simp
qed (auto split: if_splits)

lemma first_thread_cap_length:
  "m re (pos, s, replicate ncap (- 1)) = (q, u, cap) # ths \<Longrightarrow> length cap = ncap"
  using m_cap_length [of "(q, u, cap)" re "(pos, s, replicate ncap (- 1))"] by simp

lemma search_length:
  "search re ncap pos s = Some a \<Longrightarrow> length a = ncap"
proof (induction s arbitrary: pos)
  case Nil
  then show ?case
    by (auto split: list.splits dest: first_thread_cap_length)
next
  case (Cons x s)
  then show ?case
    by (auto split: list.splits dest: first_thread_cap_length)
qed

lemma doExecute_length: "doExecute re s = Some a \<Longrightarrow> length a = NumCap re"
  by (simp add: doExecute_def search_length)

section \<open>Dispatch in a table built by Add\<close>

lemma MustCompile_Inr:
  "MustCompile str = Inr re \<longleftrightarrow>
   (\<exists>ast. Parse str = Inr ast \<and> re = \<lparr>expr = str, syn = ast, numSubexp = MaxCap ast\<rparr>)"
  by (auto simp: MustCompile_def Compile_def split: sum.splits parse_error.splits)

lemma MustCompile_groups:
  assumes "MustCompile (''^'' @ e @ ''$'') = Inr re"
  shows "numSubexp re = count_groups e"
    and "capture_order (syn re) = [1..<Suc (count_groups e)]"
    and "NumCap re = 2 * (count_groups e + 1)"
    and "expr re = ''^'' @ e @ ''$''"
proof -
  from assms obtain ast where p: "Parse (''^'' @ e @ ''$'') = Inr ast"
    and re: "re = \<lparr>expr = ''^'' @ e @ ''$'', syn = ast, numSubexp = MaxCap ast\<rparr>"
    by (auto simp: MustCompile_Inr)
  from Parse_MaxCap [OF p] re show "numSubexp re = count_groups e" by (simp add: count_groups_dollar)
  from Parse_capture_order [OF p] re show "capture_order (syn re) = [1..<Suc (count_groups e)]"
    by (simp add: count_groups_dollar)
  from Parse_MaxCap [OF p] re show "NumCap re = 2 * (count_groups e + 1)"
    by (simp add: NumCap_def count_groups_dollar)
  from re show "expr re = ''^'' @ e @ ''$''" by simp
qed

lemma FindStringSubmatch_Some:
  "FindStringSubmatch re s = Some ms \<Longrightarrow>
   \<exists>a. doExecute re s = Some a \<and> length ms = 1 + numSubexp re \<and>
     (\<forall>i<1 + numSubexp re. ms ! i =
        (if 2 * i < length a \<and> 0 \<le> a ! (2 * i) then substr s (a ! (2 * i)) (a ! (2 * i + 1)) else []))"
proof -
  assume a: "FindStringSubmatch re s = Some ms"
  then obtain a where ex: "doExecute re s = Some a"
    and ms: "ms = map (\<lambda>i. if 2 * i < length a \<and> 0 \<le> a ! (2 * i)
                          then substr s (a ! (2 * i)) (a ! (2 * i + 1)) else [])
                    [0..<1 + numSubexp re]"
    by (auto simp: FindStringSubmatch_def split: option.splits)
  have "\<forall>i<1 + numSubexp re. ms ! i =
        (if 2 * i < length a \<and> 0 \<le> a ! (2 * i) then substr s (a ! (2 * i)) (a ! (2 * i + 1)) else [])"
    unfolding ms by (simp add: nth_map_upt del: upt_Suc)
  moreover have "length ms = 1 + numSubexp re" unfolding ms by (simp del: upt_Suc)
  ultimately show ?thesis using ex by blast
qed

lemma logging_apply:
  "logging i g (w, log) r submatches = (g w r submatches, log @ [(i, submatches)])"
  by (simp add: logging_def)

lemma ServeHTTP_first:
  assumes i: "i < length (routes h)"
    and hit: "FindStringSubmatch (route_re (routes h ! i)) (Path (URL r)) = Some ms"
    and before: "\<forall>j<i. FindStringSubmatch (route_re (routes h ! j)) (Path (URL r)) = None"
  shows "ServeHTTP h w r = Inr (h, route_f (routes h ! i) w r (Some (drop 1 ms)))"
    and "ServeHTTP (traced h) (w, []) r =
      Inr (traced h, (route_f (routes h ! i) w r (Some (drop 1 ms)), [(i, Some (drop 1 ms))]))"
proof -
  show "ServeHTTP h w r = Inr (h, route_f (routes h ! i) w r (Some (drop 1 ms)))"
    using serve_first [OF i hit before] by (simp add: ServeHTTP_def)
  have i': "i < length (routes (traced h))" using i by simp
  have hit': "FindStringSubmatch (route_re (routes (traced h) ! i)) (Path (URL r)) = Some ms"
    using hit i by (simp add: routes_traced_nth)
  have before': "\<forall>j<i. FindStringSubmatch (route_re (routes (traced h) ! j)) (Path (URL r)) = None"
    using before i by (simp add: routes_traced_nth)
  show "ServeHTTP (traced h) (w, []) r =
      Inr (traced h, (route_f (routes h ! i) w r (Some (drop 1 ms)), [(i, Some (drop 1 ms))]))"
    using serve_first [OF i' hit' before', of "(w, [])"] i
    by (simp add: ServeHTTP_def routes_traced_nth logging_apply)
qed

lemma ServeHTTP_none:
  assumes "\<forall>rt \<in> set (routes h). FindStringSubmatch (route_re rt) (Path (URL r)) = None"
  shows "ServeHTTP h w r = Inr (h, w)"
    and "ServeHTTP (traced h) (w, []) r = Inr (traced h, (w, []))"
proof -
  show "ServeHTTP h w r = Inr (h, w)"
    using serve_none [OF assms] by (simp add: ServeHTTP_def)
  have "\<forall>rt \<in> set (routes (traced h)). FindStringSubmatch (route_re rt) (Path (URL r)) = None"
    using assms by (auto simp: traced_def)
  from serve_none [OF this] show "ServeHTTP (traced h) (w, []) r = Inr (traced h, (w, []))"
    by (simp add: ServeHTTP_def)
qed

lemma pattern_matches_route:
  "MustCompile (''^'' @ e @ ''$'') = Inr re \<Longrightarrow>
   pattern_matches e s \<longleftrightarrow> FindStringSubmatch re s \<noteq> None"
  by (simp add: pattern_matches_def)

lemma dispatch_registered:
  assumes built: "add_all NewRegexpHandler regs = Inr h"
    and i: "i < length regs"
    and hit: "pattern_matches (fst (regs ! i)) (Path (URL r))"
    and before: "\<forall>j<i. \<not> pattern_matches (fst (regs ! j)) (Path (URL r))"
  shows "\<exists>re ms. MustCompile (''^'' @ fst (regs ! i) @ ''$'') = Inr re \<and>
      FindStringSubmatch re (Path (URL r)) = Some ms \<and>
      ServeHTTP h w r = Inr (h, snd (regs ! i) w r (Some (drop 1 ms))) \<and>
      ServeHTTP (traced h) (w, []) r =
        Inr (traced h, (snd (regs ! i) w r (Some (drop 1 ms)), [(i, Some (drop 1 ms))]))"
proof -
  note tab = add_all_routes [OF built]
  have len: "length (routes h) = length regs" using tab by (simp add: NewRegexpHandler_def)
  have nth: "\<And>j. j < length regs \<Longrightarrow>
      MustCompile (''^'' @ fst (regs ! j) @ ''$'') = Inr (route_re (routes h ! j)) \<and>
      route_f (routes h ! j) = snd (regs ! j)"
    using tab by (simp add: NewRegexpHandler_def)
  let ?re = "route_re (routes h ! i)"
  from hit nth [OF i] obtain ms where ms: "FindStringSubmatch ?re (Path (URL r)) = Some ms"
    by (auto simp: pattern_matches_route)
  have bef: "\<forall>j<i. FindStringSubmatch (route_re (routes h ! j)) (Path (URL r)) = None"
  proof (intro allI impI)
    fix j assume j: "j < i"
    then have "j < length regs" using i by simp
    from nth [OF this] before j show "FindStringSubmatch (route_re (routes h ! j)) (Path (URL r)) = None"
      by (auto simp: pattern_matches_route)
  qed
  have i': "i < length (routes h)" using i len by simp
  from ServeHTTP_first [OF i' ms bef, of w] nth [OF i] ms show ?thesis by auto
qed

lemma add_all_succeeds:
  "list_all (\<lambda>(e, g). \<not> isl (MustCompile (''^'' @ e @ ''$''))) regs \<Longrightarrow>
   \<exists>h. add_all h0 regs = Inr h"
proof (induction regs arbitrary: h0)
  case Nil
  then show ?case by simp
next
  case (Cons a regs)
  obtain e g where a: "a = (e, g)" by (cases a)
  from Cons.prems a obtain re where "MustCompile (''^'' @ e @ ''$'') = Inr re"
    by (cases "MustCompile (''^'' @ e @ ''$'')") auto
  then have "Add h0 e g = Inr (h0\<lparr>routes := routes h0 @ [\<lparr>route_re = re, route_f = g\<rparr>]\<rparr>)"
    by (simp add: Add_def)
  moreover from Cons.prems have "list_all (\<lambda>(e, g). \<not> isl (MustCompile (''^'' @ e @ ''$''))) regs"
    by simp
  ultimately show ?case using Cons.IH a by simp
qed

lemma serve_total: "\<exists>w'. serve rts w r = Inr w'"
proof (induction rts)
  case Nil
  show ?case by simp
next
  case (Cons rt rts)
  show ?case
  proof (cases "FindStringSubmatch (route_re rt) (Path (URL r))")
    case None
    with Cons show ?thesis by simp
  next
    case (Some ms)
    from serve_hit [OF Some] show ?thesis by blast
  qed
qed

lemma ServeHTTP_total: "\<exists>w'. ServeHTTP h w r = Inr (h, w')"
  using serve_total [of "routes h" w r] by (auto simp: ServeHTTP_def)

lemma submatches_of_match:
  assumes re: "MustCompile (''^'' @ e @ ''$'') = Inr re"
    and ms: "FindStringSubmatch re s = Some ms"
  shows "\<exists>a. doExecute re s = Some a \<and> length a = 2 * (count_groups e + 1) \<and>
      length (drop 1 ms) = count_groups e \<and>
      (\<forall>n<count_groups e. drop 1 ms ! n = group_text s a (Suc n))"
proof -
  note g = MustCompile_groups [OF re]
  from FindStringSubmatch_Some [OF ms] obtain a where a: "doExecute re s = Some a"
    and len: "length ms = 1 + numSubexp re"
    and el: "\<forall>i<1 + numSubexp re. ms ! i =
        (if 2 * i < length a \<and> 0 \<le> a ! (2 * i) then substr s (a ! (2 * i)) (a ! (2 * i + 1)) else [])"
    by blast
  have la: "length a = 2 * (count_groups e + 1)"
    using doExecute_length [OF a] g(3) by simp
  have "\<forall>n<count_groups e. drop 1 ms ! n = group_text s a (Suc n)"
  proof (intro allI impI)
    fix n assume n: "n < count_groups e"
    then have "drop 1 ms ! n = ms ! Suc n" using len g(1) by simp
    also have "\<dots> = (if 2 * Suc n < length a \<and> 0 \<le> a ! (2 * Suc n)
        then substr s (a ! (2 * Suc n)) (a ! (2 * Suc n + 1)) else [])"
      using el n g(1) by simp
    also have "\<dots> = group_text s a (Suc n)"
      using la n by (simp add: group_text_def)
    finally show "drop 1 ms ! n = group_text s a (Suc n)" .
  qed
  with a la len g(1) show ?thesis by simp
qed

lemma Add_as_add_all: "add_all h0 [(e, g)] = Add h0 e g"
  by (simp split: sum.splits)

lemma Add_New_routes:
  "Add NewRegexpHandler e g = Inr h \<Longrightarrow>
   \<exists>re. MustCompile (''^'' @ e @ ''$'') = Inr re \<and> routes h = [\<lparr>route_re = re, route_f = g\<rparr>]"
  by (auto simp: Add_Inr NewRegexpHandler_def)

lemma single_route_call:
  assumes add: "Add NewRegexpHandler e g = Inr h"
    and hit: "pattern_matches e (Path (URL r))"
  shows "\<exists>re ms. MustCompile (''^'' @ e @ ''$'') = Inr re \<and>
      FindStringSubmatch re (Path (URL r)) = Some ms \<and>
      ServeHTTP (traced h) (w, []) r = Inr (traced h, (g w r (Some (drop 1 ms)), [(0, Some (drop 1 ms))]))"
  using dispatch_registered [of "[(e, g)]" h 0 r w] add hit
  by (simp add: Add_as_add_all) blast

lemma single_route_no_call:
  assumes add: "Add NewRegexpHandler e g = Inr h"
    and miss: "\<not> pattern_matches e (Path (URL r))"
  shows "ServeHTTP (traced h) (w, []) r = Inr (traced h, (w, []))"
proof -
  from Add_New_routes [OF add] obtain re where re: "MustCompile (''^'' @ e @ ''$'') = Inr re"
    and rts: "routes h = [\<lparr>route_re = re, route_f = g\<rparr>]" by blast
  from miss re have "FindStringSubmatch re (Path (URL r)) = None"
    by (simp add: pattern_matches_route)
  with rts have "\<forall>rt \<in> set (routes h). FindStringSubmatch (route_re rt) (Path (URL r)) = None"
    by simp
  from ServeHTTP_none(2) [OF this] show ?thesis .
qed

lemma Add_succeeds:
  "\<not> isl (MustCompile (''^'' @ e @ ''$'')) \<Longrightarrow> \<exists>h. Add h0 e g = Inr h"
  using add_all_succeeds [of "[(e, g)]" h0] by (simp add: Add_as_add_all del: add_all.simps)

section \<open>Evaluations\<close>

lemma eval_slash_a:
  "map_sum id (\<lambda>re. FindStringSubmatch re ''/a'') (MustCompile ''^/a$'') = Inr (Some [''/a''])"
  by code_simp

lemma eval_alt:
  "map_sum id (\<lambda>re. FindStringSubmatch re ''/ab'') (MustCompile ''^/a|/b$'') = Inr (Some [''/a''])"
  by code_simp

lemma eval_two_groups:
  "map_sum id (\<lambda>re. (doExecute re ''/aa/cb'', FindStringSubmatch re ''/aa/cb''))
     (MustCompile ''^/(a+)/(b|c)+$'') =
   Inr (Some [0, 6, 1, 3, 5, 6], Some [''/aa/cb'', ''aa'', ''b''])"
  by code_simp

lemma eval_two_groups_order:
  "map_sum id (\<lambda>re. capture_order (syn re)) (MustCompile ''^/(a+)/(b|c)+$'') = Inr [1, 2]"
  by code_simp



lemma eval_foo:
  "map_sum id (\<lambda>re. FindStringSubmatch re ''foo'') (MustCompile ''^foo$'') = Inr (Some [''foo''])"
  by code_simp

lemma eval_optional_group:
  "map_sum id (\<lambda>re. (doExecute re ''/y'', numSubexp re)) (MustCompile ''^/(x)?(y)$'') =
   Inr (Some [0, 2, - 1, - 1, 1, 2], 2)"
  by code_simp

section \<open>Properties\<close>

text \<open>
  Precedence among the routes whose test succeeds. In a table built by a
  sequence of \<^verbatim>\<open>Add\<close> calls, a request whose path passes the test of
  \<^verbatim>\<open>ServeHTTP\<close> for registration \<open>i\<close> and for no registration before it invokes
  the function of that registration, once, with its submatches, and invokes no
  other function. Registrations after \<open>i\<close> do not matter.
\<close>

lemma served_route_is_first_match:
  assumes "add_all NewRegexpHandler regs = Inr h"
    and "i < length regs"
    and "pattern_matches (fst (regs ! i)) (Path (URL r))"
    and "\<forall>j<i. \<not> pattern_matches (fst (regs ! j)) (Path (URL r))"
  shows "\<exists>re ms. MustCompile (''^'' @ fst (regs ! i) @ ''$'') = Inr re \<and>
      FindStringSubmatch re (Path (URL r)) = Some ms \<and>
      ServeHTTP h w r = Inr (h, snd (regs ! i) w r (Some (drop 1 ms))) \<and>
      ServeHTTP (traced h) (w, []) r =
        Inr (traced h, (snd (regs ! i) w r (Some (drop 1 ms)), [(i, Some (drop 1 ms))]))"
  using assms by (rule dispatch_registered)

lemma served_route_is_first_match_example:
  "\<exists>h. add_all NewRegexpHandler
          [(''/a'', \<lambda>w r s. ''first'' # w), (''/(a)'', \<lambda>w r s. ''second'' # w)] = Inr h \<and>
       pattern_matches ''/a'' ''/a'' \<and> pattern_matches ''/(a)'' ''/a'' \<and>
       ServeHTTP (traced h) ([], []) \<lparr>URL = \<lparr>Path = ''/a''\<rparr>\<rparr> =
         Inr (traced h, ([''first''], [(0, Some [])]))"
proof -
  let ?regs = "[(''/a'', \<lambda>(w::string list) (r::request) (s::string list option). ''first'' # w),
                (''/(a)'', \<lambda>w r s. ''second'' # w)]"
  let ?r = "\<lparr>URL = \<lparr>Path = ''/a''\<rparr>\<rparr>"
  have "list_all (\<lambda>(e, g). \<not> isl (MustCompile (''^'' @ e @ ''$''))) ?regs"
    by code_simp
  then obtain h where h: "add_all NewRegexpHandler ?regs = Inr h"
    using add_all_succeeds by blast
  have m0: "pattern_matches ''/a'' ''/a''" by code_simp
  have m1: "pattern_matches ''/(a)'' ''/a''" by code_simp
  have "\<exists>re ms. MustCompile (''^'' @ fst (?regs ! 0) @ ''$'') = Inr re \<and>
      FindStringSubmatch re (Path (URL ?r)) = Some ms \<and>
      ServeHTTP h [] ?r = Inr (h, snd (?regs ! 0) [] ?r (Some (drop 1 ms))) \<and>
      ServeHTTP (traced h) ([], []) ?r =
        Inr (traced h, (snd (?regs ! 0) [] ?r (Some (drop 1 ms)), [(0, Some (drop 1 ms))]))"
    using m0 by (intro served_route_is_first_match [OF h]) simp_all
  then obtain re ms where re: "MustCompile ''^/a$'' = Inr re"
    and ms: "FindStringSubmatch re ''/a'' = Some ms"
    and run: "ServeHTTP (traced h) ([], []) ?r =
        Inr (traced h, ([''first''], [(0, Some (drop 1 ms))]))"
    by auto
  from eval_slash_a re ms have "ms = [''/a'']" by simp
  with run h m0 m1 show ?thesis by auto
qed

text \<open>
  C1. Among the patterns that match the path as a whole string, the one
  registered first is meant to be served. With the patterns \<^verbatim>\<open>/a|/b\<close>,
  \<^verbatim>\<open>/ab\<close> and \<^verbatim>\<open>/a(b)\<close> registered in this order and the path \<^verbatim>\<open>/ab\<close>, the
  second and the third pattern match the whole path and the first does not; yet
  the test of \<^verbatim>\<open>ServeHTTP\<close> succeeds on the first route, whose anchors bind to
  one operand of the alternation each, and its function is the one invoked.
\<close>

theorem first_full_match_not_served:
  "\<not> full_match ''/a|/b'' ''/ab'' \<and> full_match ''/ab'' ''/ab'' \<and> full_match ''/a(b)'' ''/ab'' \<and>
   pattern_matches ''/a|/b'' ''/ab'' \<and>
   (\<exists>h. add_all NewRegexpHandler
          [(''/a|/b'', \<lambda>w r s. ''zero'' # w), (''/ab'', \<lambda>w r s. ''one'' # w),
           (''/a(b)'', \<lambda>w r s. ''two'' # w)] = Inr h \<and>
        ServeHTTP h [] \<lparr>URL = \<lparr>Path = ''/ab''\<rparr>\<rparr> = Inr (h, [''zero'']) \<and>
        ServeHTTP (traced h) ([], []) \<lparr>URL = \<lparr>Path = ''/ab''\<rparr>\<rparr> =
          Inr (traced h, ([''zero''], [(0, Some [])])))"
proof -
  let ?regs = "[(''/a|/b'', \<lambda>(w::string list) (r::request) (s::string list option). ''zero'' # w),
                (''/ab'', \<lambda>w r s. ''one'' # w), (''/a(b)'', \<lambda>w r s. ''two'' # w)]"
  let ?r = "\<lparr>URL = \<lparr>Path = ''/ab''\<rparr>\<rparr>"
  have f: "\<not> full_match ''/a|/b'' ''/ab''" "full_match ''/ab'' ''/ab''"
    "full_match ''/a(b)'' ''/ab''"
    by code_simp+
  have m0: "pattern_matches ''/a|/b'' ''/ab''" by code_simp
  have "list_all (\<lambda>(e, g). \<not> isl (MustCompile (''^'' @ e @ ''$''))) ?regs"
    by code_simp
  then obtain h where h: "add_all NewRegexpHandler ?regs = Inr h"
    using add_all_succeeds by blast
  have "\<exists>re ms. MustCompile (''^'' @ fst (?regs ! 0) @ ''$'') = Inr re \<and>
      FindStringSubmatch re (Path (URL ?r)) = Some ms \<and>
      ServeHTTP h [] ?r = Inr (h, snd (?regs ! 0) [] ?r (Some (drop 1 ms))) \<and>
      ServeHTTP (traced h) ([], []) ?r =
        Inr (traced h, (snd (?regs ! 0) [] ?r (Some (drop 1 ms)), [(0, Some (drop 1 ms))]))"
    using m0 by (intro dispatch_registered [OF h]) simp_all
  then obtain re ms where re: "MustCompile ''^/a|/b$'' = Inr re"
    and ms: "FindStringSubmatch re ''/ab'' = Some ms"
    and plain: "ServeHTTP h [] ?r = Inr (h, [''zero''])"
    and run: "ServeHTTP (traced h) ([], []) ?r =
        Inr (traced h, ([''zero''], [(0, Some (drop 1 ms))]))"
    by auto
  from eval_alt re ms have "ms = [''/a'']" by simp
  with run have run': "ServeHTTP (traced h) ([], []) ?r =
        Inr (traced h, ([''zero''], [(0, Some [])]))" by simp
  from f m0 h plain run' show ?thesis by (intro conjI exI [of _ h])
qed

text \<open>
  C2. Registered patterns are meant to match whole paths only. For the pattern
  \<^verbatim>\<open>/a|/b\<close> the expression compiled by \<^verbatim>\<open>Add\<close> is \<^verbatim>\<open>^/a|/b$\<close>, in which
  each anchor binds to one operand of the alternation. The pattern matches the
  whole strings \<^verbatim>\<open>/a\<close> and \<^verbatim>\<open>/b\<close> and not the whole string \<^verbatim>\<open>/ab\<close>, yet the
  route matches the path \<^verbatim>\<open>/ab\<close> and its function is invoked.
\<close>

theorem alternation_escapes_anchors:
  "full_match ''/a|/b'' ''/a'' \<and> full_match ''/a|/b'' ''/b'' \<and> \<not> full_match ''/a|/b'' ''/ab'' \<and>
   pattern_matches ''/a|/b'' ''/ab'' \<and>
   map_sum id (\<lambda>re. FindStringSubmatch re ''/ab'') (MustCompile ''^/a|/b$'') =
     Inr (Some [''/a'']) \<and>
   (\<exists>h. Add NewRegexpHandler ''/a|/b'' (\<lambda>w r s. ''called'' # w) = Inr h \<and>
      ServeHTTP (traced h) ([], []) \<lparr>URL = \<lparr>Path = ''/ab''\<rparr>\<rparr> =
        Inr (traced h, ([''called''], [(0, Some [])])))"
proof -
  let ?g = "\<lambda>(w::string list) (r::request) (s::string list option). ''called'' # w"
  have f: "full_match ''/a|/b'' ''/a''" "full_match ''/a|/b'' ''/b''" "\<not> full_match ''/a|/b'' ''/ab''"
    by code_simp+
  have m: "pattern_matches ''/a|/b'' ''/ab''" by code_simp
  have "\<not> isl (MustCompile (''^'' @ ''/a|/b'' @ ''$''))" by code_simp
  from Add_succeeds [OF this] obtain h where h: "Add NewRegexpHandler ''/a|/b'' ?g = Inr h"
    by blast
  from single_route_call [OF h, of "\<lparr>URL = \<lparr>Path = ''/ab''\<rparr>\<rparr>" "[]"] m
  obtain re ms where "MustCompile ''^/a|/b$'' = Inr re" "FindStringSubmatch re ''/ab'' = Some ms"
    and run: "ServeHTTP (traced h) ([], []) \<lparr>URL = \<lparr>Path = ''/ab''\<rparr>\<rparr> =
        Inr (traced h, ([''called''], [(0, Some (drop 1 ms))]))" by auto
  with eval_alt have "ms = [''/a'']" by simp
  with run have r: "ServeHTTP (traced h) ([], []) \<lparr>URL = \<lparr>Path = ''/ab''\<rparr>\<rparr> =
        Inr (traced h, ([''called''], [(0, Some [])]))" by simp
  from f m eval_alt h r show ?thesis by (intro conjI exI [of _ h])
qed

text \<open>
  C3. When the route registered for a pattern serves a request, the slice passed
  to its function has as many elements as the pattern has capturing groups; the
  groups of the compiled expression are numbered 1, 2, ... from left to right,
  and element \<open>n\<close> of the slice (counted from 0) is the text of group \<open>n + 1\<close>,
  so that the whole match, group 0, is left out.
\<close>

theorem submatches_follow_groups:
  assumes "add_all NewRegexpHandler regs = Inr h"
    and "i < length regs"
    and "pattern_matches (fst (regs ! i)) (Path (URL r))"
    and "\<forall>j<i. \<not> pattern_matches (fst (regs ! j)) (Path (URL r))"
  shows "\<exists>re a submatches.
      MustCompile (''^'' @ fst (regs ! i) @ ''$'') = Inr re \<and>
      capture_order (syn re) = [1..<Suc (count_groups (fst (regs ! i)))] \<and>
      doExecute re (Path (URL r)) = Some a \<and>
      ServeHTTP (traced h) (w, []) r =
        Inr (traced h, (snd (regs ! i) w r (Some submatches), [(i, Some submatches)])) \<and>
      length submatches = count_groups (fst (regs ! i)) \<and>
      (\<forall>n<count_groups (fst (regs ! i)). submatches ! n = group_text (Path (URL r)) a (Suc n))"
proof -
  from dispatch_registered [OF assms, of w] obtain re ms where
    re: "MustCompile (''^'' @ fst (regs ! i) @ ''$'') = Inr re"
    and ms: "FindStringSubmatch re (Path (URL r)) = Some ms"
    and run: "ServeHTTP (traced h) (w, []) r =
        Inr (traced h, (snd (regs ! i) w r (Some (drop 1 ms)), [(i, Some (drop 1 ms))]))"
    by blast
  from submatches_of_match [OF re ms] obtain a where
    "doExecute re (Path (URL r)) = Some a"
    "length (drop 1 ms) = count_groups (fst (regs ! i))"
    "\<forall>n<count_groups (fst (regs ! i)). drop 1 ms ! n = group_text (Path (URL r)) a (Suc n)"
    by blast
  with re run MustCompile_groups(2) [OF re] show ?thesis by blast
qed

theorem submatches_follow_groups_witness:
  "\<exists>h. add_all NewRegexpHandler [(''/(a+)/(b|c)+'', \<lambda>w r s. (r, s) # w)] = Inr h \<and>
     count_groups ''/(a+)/(b|c)+'' = 2 \<and>
     pattern_matches ''/(a+)/(b|c)+'' ''/aa/cb'' \<and>
     ServeHTTP (traced h) ([], []) \<lparr>URL = \<lparr>Path = ''/aa/cb''\<rparr>\<rparr> =
       Inr (traced h, ([(\<lparr>URL = \<lparr>Path = ''/aa/cb''\<rparr>\<rparr>, Some [''aa'', ''b''])],
                       [(0, Some [''aa'', ''b''])]))"
proof -
  let ?e = "''/(a+)/(b|c)+''"
  let ?regs = "[(?e, \<lambda>(w::(request \<times> string list option) list) (r::request) (s::string list option). (r, s) # w)]"
  let ?r = "\<lparr>URL = \<lparr>Path = ''/aa/cb''\<rparr>\<rparr>"
  have "list_all (\<lambda>(e, g). \<not> isl (MustCompile (''^'' @ e @ ''$''))) ?regs"
    by code_simp
  then obtain h where h: "add_all NewRegexpHandler ?regs = Inr h"
    using add_all_succeeds by blast
  have k: "count_groups ?e = 2" by code_simp
  have hit: "pattern_matches ?e ''/aa/cb''" by code_simp
  have "\<exists>re a submatches.
      MustCompile (''^'' @ fst (?regs ! 0) @ ''$'') = Inr re \<and>
      capture_order (syn re) = [1..<Suc (count_groups (fst (?regs ! 0)))] \<and>
      doExecute re (Path (URL ?r)) = Some a \<and>
      ServeHTTP (traced h) ([], []) ?r =
        Inr (traced h, (snd (?regs ! 0) [] ?r (Some submatches), [(0, Some submatches)])) \<and>
      length submatches = count_groups (fst (?regs ! 0)) \<and>
      (\<forall>n<count_groups (fst (?regs ! 0)). submatches ! n = group_text (Path (URL ?r)) a (Suc n))"
    using hit by (intro submatches_follow_groups [OF h]) simp_all
  then obtain re a submatches where re: "MustCompile ''^/(a+)/(b|c)+$'' = Inr re"
    and a: "doExecute re ''/aa/cb'' = Some a"
    and run: "ServeHTTP (traced h) ([], []) ?r =
        Inr (traced h, ([(?r, Some submatches)], [(0, Some submatches)]))"
    and len: "length submatches = 2"
    and el: "\<forall>n<2. submatches ! n = group_text ''/aa/cb'' a (Suc n)"
    using k by auto
  from eval_two_groups re a have a': "a = [0, 6, 1, 3, 5, 6]" by simp
  have "submatches ! 0 = ''aa''" "submatches ! 1 = ''b''"
    using el a' by (simp_all add: group_text_def substr_def)
  with len have "submatches = [''aa'', ''b'']"
    by (cases submatches; cases "tl submatches") auto
  with run h k hit show ?thesis by auto
qed

text \<open>
  C4. When the anchored pattern is syntactically invalid, \<^verbatim>\<open>Add\<close> panics with
  the error of the compiler and yields no table, so that no route is registered
  and a sequence of registrations ends there; \<^verbatim>\<open>ServeHTTP\<close> itself never
  panics, whatever the table.
\<close>

theorem invalid_pattern_panics_in_Add:
  assumes "Compile (''^'' @ e @ ''$'') = Inl (Syntax code)"
  shows "Add h e g = Inl (CompilePanic code) \<and>
         (\<forall>regs. add_all h ((e, g) # regs) = Inl (CompilePanic code)) \<and>
         (\<forall>h' w r. \<exists>w'. ServeHTTP (h' :: 'w RegexpHandler) w r = Inr (h', w'))"
proof -
  from assms have "Add h e g = Inl (CompilePanic code)"
    by (simp add: Add_def MustCompile_def)
  moreover have "\<forall>h' w r. \<exists>w'. ServeHTTP (h' :: 'w RegexpHandler) w r = Inr (h', w')"
    by (simp add: ServeHTTP_total)
  ultimately show ?thesis by simp
qed

theorem invalid_pattern_panics_in_Add_witness:
  "Compile ''^(a$'' = Inl (Syntax ErrMissingParen) \<and>
   Add NewRegexpHandler ''(a'' (\<lambda>w r s. ''called'' # w) = Inl (CompilePanic ErrMissingParen) \<and>
   Compile ''^a)$'' = Inl (Syntax ErrUnexpectedParen) \<and>
   Add NewRegexpHandler ''a)'' (\<lambda>w r s. ''called'' # w) = Inl (CompilePanic ErrUnexpectedParen)"
proof -
  have c1: "Compile (''^'' @ ''(a'' @ ''$'') = Inl (Syntax ErrMissingParen)" by code_simp
  have c2: "Compile (''^'' @ ''a)'' @ ''$'') = Inl (Syntax ErrUnexpectedParen)" by code_simp
  let ?g = "\<lambda>(w::string list) (r::request) (s::string list option). ''called'' # w"
  have "Add NewRegexpHandler ''(a'' ?g = Inl (CompilePanic ErrMissingParen)"
    using invalid_pattern_panics_in_Add [OF c1, of NewRegexpHandler ?g] by blast
  moreover have "Add NewRegexpHandler ''a)'' ?g = Inl (CompilePanic ErrUnexpectedParen)"
    using invalid_pattern_panics_in_Add [OF c2, of NewRegexpHandler ?g] by blast
  ultimately show ?thesis using c1 c2 by simp
qed



text \<open>
  C6. After a sequence of successful \<^verbatim>\<open>Add\<close> calls on a table, the routes are
  those the table had before, unchanged and in their order, followed by one route
  for each call in the order of the calls, with the anchored pattern compiled
  and the function as given; equal registrations are kept as separate routes.
\<close>

theorem table_is_registration_sequence:
  assumes "add_all h0 regs = Inr h"
  shows "\<exists>res. length res = length regs \<and>
     (\<forall>i<length regs. MustCompile (''^'' @ fst (regs ! i) @ ''$'') = Inr (res ! i) \<and>
         expr (res ! i) = ''^'' @ fst (regs ! i) @ ''$'') \<and>
     routes h = routes h0 @
       map (\<lambda>i. \<lparr>route_re = res ! i, route_f = snd (regs ! i)\<rparr>) [0..<length regs] \<and>
     (\<forall>w r. \<exists>w'. ServeHTTP h w r = Inr (h, w'))"
proof -
  note tab = add_all_routes [OF assms]
  let ?n0 = "length (routes h0)"
  let ?res = "map (\<lambda>i. route_re (routes h ! (?n0 + i))) [0..<length regs]"
  have c: "\<forall>i<length regs. MustCompile (''^'' @ fst (regs ! i) @ ''$'') = Inr (?res ! i) \<and>
         expr (?res ! i) = ''^'' @ fst (regs ! i) @ ''$''"
  proof (intro allI impI)
    fix i assume i: "i < length regs"
    with tab have mc: "MustCompile (''^'' @ fst (regs ! i) @ ''$'') =
        Inr (route_re (routes h ! (?n0 + i)))" by blast
    from mc MustCompile_groups(4) [OF mc] i
    show "MustCompile (''^'' @ fst (regs ! i) @ ''$'') = Inr (?res ! i) \<and>
         expr (?res ! i) = ''^'' @ fst (regs ! i) @ ''$''" by simp
  qed
  have "routes h = routes h0 @
       map (\<lambda>i. \<lparr>route_re = ?res ! i, route_f = snd (regs ! i)\<rparr>) [0..<length regs]"
  proof (rule nth_equalityI)
    show "length (routes h) = length (routes h0 @
       map (\<lambda>i. \<lparr>route_re = ?res ! i, route_f = snd (regs ! i)\<rparr>) [0..<length regs])"
      using tab by simp
  next
    fix k assume k: "k < length (routes h)"
    show "routes h ! k = (routes h0 @
       map (\<lambda>i. \<lparr>route_re = ?res ! i, route_f = snd (regs ! i)\<rparr>) [0..<length regs]) ! k"
    proof (cases "k < ?n0")
      case True
      have "routes h ! k = take ?n0 (routes h) ! k" using True by simp
      also have "\<dots> = routes h0 ! k" using tab by simp
      finally show ?thesis using True by (simp add: nth_append)
    next
      case False
      define i where "i = k - ?n0"
      have ki: "k = ?n0 + i" and i: "i < length regs" using False k tab by (auto simp: i_def)
      from tab i have "route_f (routes h ! (?n0 + i)) = snd (regs ! i)" by blast
      then have "routes h ! k = \<lparr>route_re = route_re (routes h ! k), route_f = snd (regs ! i)\<rparr>"
        using ki by (cases "routes h ! k") auto
      then show ?thesis using ki i by (simp add: nth_append)
    qed
  qed
  with c show ?thesis by (intro exI [of _ ?res]) (simp add: ServeHTTP_total)
qed

theorem table_is_registration_sequence_witness:
  "\<exists>h. add_all NewRegexpHandler
          [(''/a'', \<lambda>w r s. ''one'' # w), (''/a'', \<lambda>w r s. ''one'' # w),
           (''/b'', \<lambda>w r s. ''two'' # w)] = Inr h \<and>
       map (\<lambda>rt. (expr (route_re rt), route_f rt [] \<lparr>URL = \<lparr>Path = []\<rparr>\<rparr> None)) (routes h) =
         [(''^/a$'', [''one'']), (''^/a$'', [''one'']), (''^/b$'', [''two''])]"
proof -
  let ?regs = "[(''/a'', \<lambda>(w::string list) (r::request) (s::string list option). ''one'' # w),
                (''/a'', \<lambda>w r s. ''one'' # w), (''/b'', \<lambda>w r s. ''two'' # w)]"
  have "list_all (\<lambda>(e, g). \<not> isl (MustCompile (''^'' @ e @ ''$''))) ?regs"
    by code_simp
  then obtain h where h: "add_all NewRegexpHandler ?regs = Inr h"
    using add_all_succeeds by blast
  from table_is_registration_sequence [OF h] obtain res where
    ex: "\<forall>i<length ?regs. expr (res ! i) = ''^'' @ fst (?regs ! i) @ ''$''"
    and tab: "routes h = routes NewRegexpHandler @
       map (\<lambda>i. \<lparr>route_re = res ! i, route_f = snd (?regs ! i)\<rparr>) [0..<length ?regs]"
    by blast
  have "expr (res ! 0) = ''^/a$''" "expr (res ! Suc 0) = ''^/a$''"
    "expr (res ! Suc (Suc 0)) = ''^/b$''"
    using ex [rule_format, of 0] ex [rule_format, of "Suc 0"] ex [rule_format, of "Suc (Suc 0)"]
    by simp_all
  then have "map (\<lambda>rt. (expr (route_re rt), route_f rt [] \<lparr>URL = \<lparr>Path = []\<rparr>\<rparr> None)) (routes h) =
         [(''^/a$'', [''one'']), (''^/a$'', [''one'']), (''^/b$'', [''two''])]"
    using tab by (simp add: NewRegexpHandler_def upt_rec [of 0] upt_rec [of 1] upt_rec [of 2] nth_Cons')
  with h show ?thesis by (intro exI [of _ h] conjI)
qed

text \<open>
  C7. When the pattern of the route that serves a request has no capturing
  group, its function receives a slice that is not nil and has length zero.
\<close>

theorem no_groups_empty_slice:
  assumes "add_all NewRegexpHandler regs = Inr h"
    and "i < length regs"
    and "pattern_matches (fst (regs ! i)) (Path (URL r))"
    and "\<forall>j<i. \<not> pattern_matches (fst (regs ! j)) (Path (URL r))"
    and "count_groups (fst (regs ! i)) = 0"
  shows "ServeHTTP (traced h) (w, []) r =
        Inr (traced h, (snd (regs ! i) w r (Some []), [(i, Some [])]))"
proof -
  from dispatch_registered [OF assms(1-4), of w] obtain re ms where
    re: "MustCompile (''^'' @ fst (regs ! i) @ ''$'') = Inr re"
    and ms: "FindStringSubmatch re (Path (URL r)) = Some ms"
    and run: "ServeHTTP (traced h) (w, []) r =
        Inr (traced h, (snd (regs ! i) w r (Some (drop 1 ms)), [(i, Some (drop 1 ms))]))"
    by blast
  from submatches_of_match [OF re ms] assms(5) have "drop 1 ms = []" by auto
  with run show ?thesis by simp
qed

theorem no_groups_empty_slice_witness:
  "\<exists>h. add_all NewRegexpHandler [(''a*'', \<lambda>w r s. (r, s) # w)] = Inr h \<and>
     count_groups ''a*'' = 0 \<and>
     pattern_matches ''a*'' [] \<and>
     ServeHTTP (traced h) ([], []) \<lparr>URL = \<lparr>Path = []\<rparr>\<rparr> =
       Inr (traced h, ([(\<lparr>URL = \<lparr>Path = []\<rparr>\<rparr>, Some [])], [(0, Some [])]))"
proof -
  let ?regs = "[(''a*'', \<lambda>(w::(request \<times> string list option) list) (r::request) (s::string list option). (r, s) # w)]"
  let ?r = "\<lparr>URL = \<lparr>Path = []\<rparr>\<rparr>"
  have "list_all (\<lambda>(e, g). \<not> isl (MustCompile (''^'' @ e @ ''$''))) ?regs"
    by code_simp
  then obtain h where h: "add_all NewRegexpHandler ?regs = Inr h"
    using add_all_succeeds by blast
  have k: "count_groups ''a*'' = 0" by code_simp
  have hit: "pattern_matches ''a*'' []" by code_simp
  have "ServeHTTP (traced h) ([], []) ?r =
        Inr (traced h, (snd (?regs ! 0) [] ?r (Some []), [(0, Some [])]))"
    using hit k by (intro no_groups_empty_slice [OF h]) simp_all
  with h k hit show ?thesis by (intro exI [of _ h] conjI) simp_all
qed

text \<open>
  C8. The route registered for the pattern \<^verbatim>\<open>foo\<close> matches the path \<^verbatim>\<open>foo\<close>
  and matches neither \<^verbatim>\<open>foobar\<close> nor \<^verbatim>\<open>xfoo\<close>: requests for these two paths
  invoke no function.
\<close>

theorem literal_foo_is_anchored:
  "pattern_matches ''foo'' ''foo'' \<and>
   \<not> pattern_matches ''foo'' ''foobar'' \<and>
   \<not> pattern_matches ''foo'' ''xfoo'' \<and>
   (\<exists>h. Add NewRegexpHandler ''foo'' (\<lambda>w r s. ''called'' # w) = Inr h \<and>
      ServeHTTP (traced h) ([], []) \<lparr>URL = \<lparr>Path = ''foobar''\<rparr>\<rparr> = Inr (traced h, ([], [])) \<and>
      ServeHTTP (traced h) ([], []) \<lparr>URL = \<lparr>Path = ''xfoo''\<rparr>\<rparr> = Inr (traced h, ([], [])) \<and>
      ServeHTTP (traced h) ([], []) \<lparr>URL = \<lparr>Path = ''foo''\<rparr>\<rparr> =
        Inr (traced h, ([''called''], [(0, Some [])])))"
proof -
  let ?g = "\<lambda>(w::string list) (r::request) (s::string list option). ''called'' # w"
  have m: "pattern_matches ''foo'' ''foo''" by code_simp
  have n1: "\<not> pattern_matches ''foo'' ''foobar''" by code_simp
  have n2: "\<not> pattern_matches ''foo'' ''xfoo''" by code_simp
  have "\<not> isl (MustCompile (''^'' @ ''foo'' @ ''$''))" by code_simp
  from Add_succeeds [OF this] obtain h where h: "Add NewRegexpHandler ''foo'' ?g = Inr h"
    by blast
  have r1: "ServeHTTP (traced h) ([], []) \<lparr>URL = \<lparr>Path = ''foobar''\<rparr>\<rparr> = Inr (traced h, ([], []))"
    using single_route_no_call [OF h, of "\<lparr>URL = \<lparr>Path = ''foobar''\<rparr>\<rparr>"] n1 by simp
  have r2: "ServeHTTP (traced h) ([], []) \<lparr>URL = \<lparr>Path = ''xfoo''\<rparr>\<rparr> = Inr (traced h, ([], []))"
    using single_route_no_call [OF h, of "\<lparr>URL = \<lparr>Path = ''xfoo''\<rparr>\<rparr>"] n2 by simp
  from single_route_call [OF h, of "\<lparr>URL = \<lparr>Path = ''foo''\<rparr>\<rparr>" "[]"] m
  obtain re ms where "MustCompile ''^foo$'' = Inr re" "FindStringSubmatch re ''foo'' = Some ms"
    and run: "ServeHTTP (traced h) ([], []) \<lparr>URL = \<lparr>Path = ''foo''\<rparr>\<rparr> =
        Inr (traced h, ([''called''], [(0, Some (drop 1 ms))]))" by auto
  with eval_foo have "ms = [''foo'']" by simp
  with run have r3: "ServeHTTP (traced h) ([], []) \<lparr>URL = \<lparr>Path = ''foo''\<rparr>\<rparr> =
        Inr (traced h, ([''called''], [(0, Some [])]))" by simp
  from m n1 n2 h r1 r2 r3 show ?thesis by (intro conjI exI [of _ h])
qed

text \<open>
  C9. \<^verbatim>\<open>ServeHTTP\<close> never panics and leaves the table as it was; the response
  writer is either untouched, with no function invoked, or is what a single
  invocation of the function of one route of the table made of it.
\<close>

theorem dispatch_frame:
  "\<exists>w' log. ServeHTTP h w r = Inr (h, w') \<and>
     ServeHTTP (traced h) (w, []) r = Inr (traced h, (w', log)) \<and>
     (log = [] \<and> w' = w \<or>
      (\<exists>i submatches. i < length (routes h) \<and> log = [(i, submatches)] \<and>
         w' = route_f (routes h ! i) w r submatches))"
proof (cases "\<forall>rt \<in> set (routes h). FindStringSubmatch (route_re rt) (Path (URL r)) = None")
  case True
  from ServeHTTP_none [OF True, of w] show ?thesis by blast
next
  case False
  let ?P = "\<lambda>i. i < length (routes h) \<and>
     FindStringSubmatch (route_re (routes h ! i)) (Path (URL r)) \<noteq> None"
  from False obtain rt where "rt \<in> set (routes h)"
    "FindStringSubmatch (route_re rt) (Path (URL r)) \<noteq> None" by blast
  then have "\<exists>i. ?P i" by (metis in_set_conv_nth)
  then obtain i where i: "?P i" and least: "\<forall>j<i. \<not> ?P j"
    using exists_least_iff [of ?P] by blast
  from i obtain ms where ms: "FindStringSubmatch (route_re (routes h ! i)) (Path (URL r)) = Some ms"
    by auto
  have before: "\<forall>j<i. FindStringSubmatch (route_re (routes h ! j)) (Path (URL r)) = None"
    using least i by auto
  from i have il: "i < length (routes h)" by simp
  from ServeHTTP_first [OF il ms before, of w] il show ?thesis by blast
qed

text \<open>
  C10. When the route registered for a pattern serves a request, a capturing
  group whose registers are unset after the match (the group took no part in it)
  still has its element in the slice, the empty string, and the slice has as many
  elements as the pattern has capturing groups.
\<close>

theorem unset_group_is_empty_string:
  assumes "add_all NewRegexpHandler regs = Inr h"
    and "i < length regs"
    and "pattern_matches (fst (regs ! i)) (Path (URL r))"
    and "\<forall>j<i. \<not> pattern_matches (fst (regs ! j)) (Path (URL r))"
  shows "\<exists>re a submatches.
      MustCompile (''^'' @ fst (regs ! i) @ ''$'') = Inr re \<and>
      doExecute re (Path (URL r)) = Some a \<and>
      ServeHTTP (traced h) (w, []) r =
        Inr (traced h, (snd (regs ! i) w r (Some submatches), [(i, Some submatches)])) \<and>
      length submatches = numSubexp re \<and>
      numSubexp re = count_groups (fst (regs ! i)) \<and>
      (\<forall>n<numSubexp re. a ! (2 * Suc n) < 0 \<longrightarrow> submatches ! n = [])"
proof -
  from dispatch_registered [OF assms, of w] obtain re ms where
    re: "MustCompile (''^'' @ fst (regs ! i) @ ''$'') = Inr re"
    and ms: "FindStringSubmatch re (Path (URL r)) = Some ms"
    and run: "ServeHTTP (traced h) (w, []) r =
        Inr (traced h, (snd (regs ! i) w r (Some (drop 1 ms)), [(i, Some (drop 1 ms))]))"
    by blast
  note k = MustCompile_groups(1) [OF re]
  from submatches_of_match [OF re ms] obtain a where
    a: "doExecute re (Path (URL r)) = Some a"
    and len: "length (drop 1 ms) = count_groups (fst (regs ! i))"
    and el: "\<forall>n<count_groups (fst (regs ! i)).
        drop 1 ms ! n = group_text (Path (URL r)) a (Suc n)"
    by blast
  have "\<forall>n<numSubexp re. a ! (2 * Suc n) < 0 \<longrightarrow> drop 1 ms ! n = []"
    using el k by (simp add: group_text_def)
  with re a run len k show ?thesis by (intro exI [of _ re] exI [of _ a] exI [of _ "drop 1 ms"]) simp
qed

theorem unset_group_is_empty_string_witness:
  "\<exists>h submatches.
     add_all NewRegexpHandler [(''/(x)?(y)'', \<lambda>w r s. (r, s) # w)] = Inr h \<and>
     pattern_matches ''/(x)?(y)'' ''/y'' \<and>
     ServeHTTP (traced h) ([], []) \<lparr>URL = \<lparr>Path = ''/y''\<rparr>\<rparr> =
       Inr (traced h, ([(\<lparr>URL = \<lparr>Path = ''/y''\<rparr>\<rparr>, Some submatches)],
                       [(0, Some submatches)])) \<and>
     length submatches = 2 \<and> submatches ! 0 = []"
proof -
  let ?e = "''/(x)?(y)''"
  let ?regs = "[(?e, \<lambda>(w::(request \<times> string list option) list) (r::request) (s::string list option). (r, s) # w)]"
  let ?r = "\<lparr>URL = \<lparr>Path = ''/y''\<rparr>\<rparr>"
  have "list_all (\<lambda>(e, g). \<not> isl (MustCompile (''^'' @ e @ ''$''))) ?regs"
    by code_simp
  then obtain h where h: "add_all NewRegexpHandler ?regs = Inr h"
    using add_all_succeeds by blast
  have hit: "pattern_matches ?e ''/y''" by code_simp
  have "\<exists>re a submatches.
      MustCompile (''^'' @ fst (?regs ! 0) @ ''$'') = Inr re \<and>
      doExecute re (Path (URL ?r)) = Some a \<and>
      ServeHTTP (traced h) ([], []) ?r =
        Inr (traced h, (snd (?regs ! 0) [] ?r (Some submatches), [(0, Some submatches)])) \<and>
      length submatches = numSubexp re \<and>
      numSubexp re = count_groups (fst (?regs ! 0)) \<and>
      (\<forall>n<numSubexp re. a ! (2 * Suc n) < 0 \<longrightarrow> submatches ! n = [])"
    using hit by (intro unset_group_is_empty_string [OF h]) simp_all
  then obtain re a submatches where re: "MustCompile ''^/(x)?(y)$'' = Inr re"
    and a: "doExecute re ''/y'' = Some a"
    and run: "ServeHTTP (traced h) ([], []) ?r =
        Inr (traced h, ([(?r, Some submatches)], [(0, Some submatches)]))"
    and len: "length submatches = numSubexp re"
    and el: "\<forall>n<numSubexp re. a ! (2 * Suc n) < 0 \<longrightarrow> submatches ! n = []"
    by auto
  from eval_optional_group re a have a': "a = [0, 2, - 1, - 1, 1, 2]" and n: "numSubexp re = 2"
    by simp_all
  have e0: "submatches ! 0 = []" using el a' n by simp
  from h hit run len n e0 show ?thesis
    by (intro exI [of _ h] exI [of _ submatches] conjI) simp_all
qed

end
